theory Spec2Isabelle
  imports Complex_Main "HOL-Library.Word" "HOL-Library.Multiset"
    "HOL-Library.Signed_Division" "HOL-Library.Monad_Syntax"
begin

unbundle bit_operations_syntax

section \<open>Memory accesses and loops\<close>

text \<open>
  C++ arrays and vectors are lists; an access outside the allocated size is undefined
  behaviour in the source and the value \<open>None\<close> here, so that a run of the model that
  returns \<open>Some\<close> has made in-bounds accesses only. The C++ type \<open>int\<close> is modelled by
  the mathematical integers (all sizes are taken to fit the machine type), \<open>float\<close> by the
  reals (no rounding, no NaN), \<open>uint64_t\<close> by 64-bit words. Integer division and remainder
  truncate towards zero (\<open>sdiv\<close>, \<open>smod\<close>).
\<close>

type_synonym u64 = "64 word"

definition rd :: "'a list \<Rightarrow> int \<Rightarrow> 'a option" where
  "rd xs i = (if 0 \<le> i \<and> i < int (length xs) then Some (xs ! nat i) else None)"

definition wr :: "'a list \<Rightarrow> int \<Rightarrow> 'a \<Rightarrow> 'a list option" where
  "wr xs i v = (if 0 \<le> i \<and> i < int (length xs) then Some (xs[nat i := v]) else None)"

text \<open>A \<open>for\<close> loop over a fixed range of indices, stopping at the first fault.\<close>

fun for_each :: "('i \<Rightarrow> 's \<Rightarrow> 's option) \<Rightarrow> 'i list \<Rightarrow> 's \<Rightarrow> 's option" where
  "for_each f [] s = Some s"
| "for_each f (i # js) s = (case f i s of None \<Rightarrow> None | Some s' \<Rightarrow> for_each f js s')"

section \<open>Word primitives\<close>

text \<open>\<open>__builtin_popcountll\<close>: the number of set bits of a 64-bit word.\<close>

definition popcountll :: "u64 \<Rightarrow> int" where
  "popcountll w = int (length (filter (bit w) [0..<64]))"

text \<open>
  \<open>_pdep_u64 src mask\<close> (parallel bit deposit): the low bits of \<open>src\<close> are written, in
  order, to the positions of the set bits of \<open>mask\<close>; \<open>m\<close> runs over the bit positions
  and \<open>k\<close> counts the set bits of the mask met so far.
\<close>

definition pdep_u64 :: "u64 \<Rightarrow> u64 \<Rightarrow> u64" where
  "pdep_u64 src msk =
     snd (fold (\<lambda>m (k, dest).
            if bit msk m then (Suc k, if bit src k then set_bit m dest else dest)
            else (k, dest))
          [0..<64] (0, 0))"

text \<open>One step of the deposit loop, named for the proofs.\<close>

definition pdep_step :: "u64 \<Rightarrow> u64 \<Rightarrow> nat \<Rightarrow> nat \<times> u64 \<Rightarrow> nat \<times> u64" where
  "pdep_step src msk = (\<lambda>m (k, dest).
            if bit msk m then (Suc k, if bit src k then set_bit m dest else dest)
            else (k, dest))"

text \<open>\<open>__builtin_ctzll\<close>: the number of trailing zero bits; undefined for 0.\<close>

definition ctzll :: "u64 \<Rightarrow> int option" where
  "ctzll x = map_option int (List.find (bit x) [0..<64])"

section \<open>The Block of the ranked-bitmap engine\<close>

text \<open>
  The fields of \<open>struct Block\<close>; \<open>by\<close> and \<open>sorted\<close> are written \<open>by'\<close> and \<open>sorted'\<close>,
  and the array \<open>psum[2]\<close> is the pair \<open>(psum[0], psum[1])\<close>.
\<close>

record Block =
  nx :: int
  ny :: int
  bx :: int
  by' :: int
  hy :: int
  hx :: int
  x0b :: int
  x1b :: int
  y0b :: int
  y1b :: int
  x0i :: int
  y0i :: int
  x1i :: int
  y1i :: int
  x0 :: int
  y0 :: int
  x1 :: int
  y1 :: int
  words :: int
  p :: int
  psum :: "int \<times> int"
  sorted' :: "(real \<times> int) list"
  ranks :: "int list"
  buff :: "u64 list"

text \<open>
  \<open>std::sort\<close> with the comparator \<open>a.first < b.first\<close> is a parameter \<open>srt\<close> of the
  constructor: the C++ standard promises a permutation of the input in which no element
  is followed by one of smaller key, and nothing about the order of elements of equal key.
\<close>

definition std_sort_spec :: "((real \<times> int) list \<Rightarrow> (real \<times> int) list) \<Rightarrow> bool" where
  "std_sort_spec srt = (\<forall>xs. mset (srt xs) = mset xs \<and> sorted (map fst (srt xs)))"

definition fill_sorted ::
  "real list \<Rightarrow> int \<Rightarrow> int \<Rightarrow> int \<Rightarrow> int \<Rightarrow> int \<Rightarrow> (real \<times> int) list \<Rightarrow> (real \<times> int) list option" where
  "fill_sorted inp nxv x0bv y0bv bxv byv s =
     for_each (\<lambda>dy s. for_each (\<lambda>dx s. do {
         v \<leftarrow> rd inp ((y0bv + dy) * nxv + (x0bv + dx));
         wr s (dy * bxv + dx) (v, dy * bxv + dx) }) [0 .. bxv - 1] s) [0 .. byv - 1] s"

definition fill_ranks :: "(real \<times> int) list \<Rightarrow> int \<Rightarrow> int list \<Rightarrow> int list option" where
  "fill_ranks s n r = for_each (\<lambda>i r. do { e \<leftarrow> rd s i; wr r (snd e) i }) [0 .. n - 1] r"

definition Block_new ::
  "((real \<times> int) list \<Rightarrow> (real \<times> int) list) \<Rightarrow> int \<Rightarrow> int \<Rightarrow> int \<Rightarrow> int \<Rightarrow> real list \<Rightarrow>
   int \<Rightarrow> int \<Rightarrow> int \<Rightarrow> int \<Rightarrow> Block option" where
  "Block_new srt nyv nxv hyv hxv inp x0iv y0iv x1iv y1iv =
     (let x0bv = max (x0iv - hxv) 0;
          y0bv = max (y0iv - hyv) 0;
          x1bv = min (x1iv + hxv) (nxv - 1);
          y1bv = min (y1iv + hyv) (nyv - 1);
          bxv = x1bv - x0bv + 1;
          byv = y1bv - y0bv + 1
      in if bxv * byv < 0 then None
         else do {
           s \<leftarrow> fill_sorted inp nxv x0bv y0bv bxv byv (replicate (nat (bxv * byv)) (0, 0));
           r \<leftarrow> fill_ranks (srt s) (bxv * byv) (replicate (nat (bxv * byv)) 0);
           let wordsv = (bxv * byv + 63) sdiv 64;
           Some \<lparr> nx = nxv, ny = nyv, bx = bxv, by' = byv, hy = hyv, hx = hxv,
                  x0b = x0bv, x1b = x1bv, y0b = y0bv, y1b = y1bv,
                  x0i = x0iv, y0i = y0iv, x1i = x1iv, y1i = y1iv,
                  x0 = x0iv - x0bv, y0 = y0iv - y0bv, x1 = x1iv - x0bv, y1 = y1iv - y0bv,
                  words = wordsv, p = wordsv sdiv 2, psum = (0, 0),
                  sorted' = srt s, ranks = r, buff = replicate (nat wordsv) 0 \<rparr> })"

text \<open>\<open>psum[hi] += d\<close>, where \<open>hi\<close> is the truth value of \<open>i >= p\<close>.\<close>

definition psum_add :: "int \<times> int \<Rightarrow> bool \<Rightarrow> int \<Rightarrow> int \<times> int" where
  "psum_add ps hi d = (if hi then (fst ps, snd ps + d) else (fst ps + d, snd ps))"

definition add_rank :: "Block \<Rightarrow> int \<Rightarrow> int \<Rightarrow> Block option" where
  "add_rank b ix jy =
     (if ix < 0 \<or> ix \<ge> bx b \<or> jy < 0 \<or> jy \<ge> by' b then Some b
      else do {
        rank \<leftarrow> rd (ranks b) (jy * bx b + ix);
        let i = drop_bit 6 rank;
        w \<leftarrow> rd (buff b) i;
        buff' \<leftarrow> wr (buff b) i (w XOR push_bit (nat (rank AND 63)) 1);
        Some (b\<lparr>buff := buff', psum := psum_add (psum b) (i \<ge> p b) 1\<rparr>) })"

definition remove_rank :: "Block \<Rightarrow> int \<Rightarrow> int \<Rightarrow> Block option" where
  "remove_rank b ix jy =
     (if ix < 0 \<or> ix \<ge> bx b \<or> jy < 0 \<or> jy \<ge> by' b then Some b
      else do {
        rank \<leftarrow> rd (ranks b) (jy * bx b + ix);
        let i = drop_bit 6 rank;
        w \<leftarrow> rd (buff b) i;
        buff' \<leftarrow> wr (buff b) i (w XOR push_bit (nat (rank AND 63)) 1);
        Some (b\<lparr>buff := buff', psum := psum_add (psum b) (i \<ge> p b) (- 1)\<rparr>) })"

definition pop :: "Block \<Rightarrow> int \<Rightarrow> int option" where
  "pop b idx = map_option popcountll (rd (buff b) idx)"

text \<open>The two loops of \<open>search\<close> that move the pivot word \<open>p\<close>.\<close>

function search_down :: "Block \<Rightarrow> int \<Rightarrow> Block option" where
  "search_down b target =
     (if fst (psum b) > target then
        (case pop b (p b - 1) of
           None \<Rightarrow> None
         | Some c \<Rightarrow> search_down (b\<lparr>p := p b - 1, psum := (fst (psum b) - c, snd (psum b) + c)\<rparr>) target)
      else Some b)"
  by pat_completeness auto
termination
  by (relation "measure (\<lambda>(b, t). nat (p b))")
     (auto simp: pop_def rd_def split: if_splits)

function search_up :: "Block \<Rightarrow> int \<Rightarrow> Block option" where
  "search_up b target =
     (case pop b (p b) of
        None \<Rightarrow> None
      | Some c \<Rightarrow>
          if fst (psum b) + c \<le> target
          then search_up (b\<lparr>psum := (fst (psum b) + c, snd (psum b) - c), p := p b + 1\<rparr>) target
          else Some b)"
  by pat_completeness auto
termination
  by (relation "measure (\<lambda>(b, t). nat (int (length (buff b)) - p b))")
     (auto simp: pop_def rd_def split: if_splits)

declare search_down.simps [simp del] search_up.simps [simp del]

definition search :: "Block \<Rightarrow> int \<Rightarrow> (int \<times> Block) option" where
  "search b target = do {
     b1 \<leftarrow> search_down b target;
     b2 \<leftarrow> search_up b1 target;
     let n = target - fst (psum b2);
     w \<leftarrow> rd (buff b2) (p b2);
     if n < 0 \<or> n \<ge> 64 then None
     else do {
       bitpos \<leftarrow> ctzll (pdep_u64 (push_bit (nat n) 1) w);
       Some (push_bit 6 (p b2) OR bitpos, b2) } }"

definition get_median :: "Block \<Rightarrow> (real \<times> Block) option" where
  "get_median b =
     (let sum = fst (psum b) + snd (psum b) in do {
        (i1, b1) \<leftarrow> search b ((sum - 1) sdiv 2);
        if sum smod 2 = 1 then do {
          e1 \<leftarrow> rd (sorted' b1) i1;
          Some (fst e1, b1) }
        else do {
          (i2, b2) \<leftarrow> search b1 (sum sdiv 2);
          e1 \<leftarrow> rd (sorted' b2) i1;
          e2 \<leftarrow> rd (sorted' b2) i2;
          Some ((fst e1 + fst e2) / 2, b2) } })"

section \<open>The serpentine traversal\<close>

text \<open>
  The traversal is written once for any action \<open>emit b x y out\<close> performed at an output
  pixel; \<open>compute_median\<close> instantiates it with the statement
  \<open>out[(x + x0b) + nx * (y + y0b)] = get_median()\<close>. The loop bounds \<open>y1\<close>, \<open>y0\<close>, \<open>x1\<close>
  are fields that no statement assigns: the loops take them as arguments.
\<close>

type_synonym 'o emit = "Block \<Rightarrow> int \<Rightarrow> int \<Rightarrow> 'o \<Rightarrow> (Block \<times> 'o) option"

function down_sweep :: "'o emit \<Rightarrow> int \<Rightarrow> int \<Rightarrow> Block \<Rightarrow> 'o \<Rightarrow> int \<Rightarrow> (Block \<times> 'o \<times> int) option" where
  "down_sweep emit x y1v b out y =
     (if y < y1v then
        (case emit b x y out of
           None \<Rightarrow> None
         | Some (b1, out1) \<Rightarrow>
            (case (if y - hy b1 \<ge> 0
                   then for_each (\<lambda>ix c. remove_rank c (x + ix) (y - hy c)) [- hx b1 .. hx b1] b1
                   else Some b1) of
               None \<Rightarrow> None
             | Some b2 \<Rightarrow>
                (case (if (y + 1) + hy b2 < ny b2
                       then for_each (\<lambda>ix c. add_rank c (x + ix) ((y + 1) + hy c)) [- hx b2 .. hx b2] b2
                       else Some b2) of
                   None \<Rightarrow> None
                 | Some b3 \<Rightarrow> down_sweep emit x y1v b3 out1 (y + 1))))
      else Some (b, out, y))"
  by pat_completeness auto
termination
  by (relation "measure (\<lambda>(emit, x, y1v, b, out, y). nat (y1v - y))") auto

function up_sweep :: "'o emit \<Rightarrow> int \<Rightarrow> int \<Rightarrow> Block \<Rightarrow> 'o \<Rightarrow> int \<Rightarrow> (Block \<times> 'o \<times> int) option" where
  "up_sweep emit x y0v b out y =
     (if y > y0v then
        (case emit b x y out of
           None \<Rightarrow> None
         | Some (b1, out1) \<Rightarrow>
            (case (if y + hy b1 < ny b1
                   then for_each (\<lambda>ix c. remove_rank c (x + ix) (y + hy c)) [- hx b1 .. hx b1] b1
                   else Some b1) of
               None \<Rightarrow> None
             | Some b2 \<Rightarrow>
                (case (if (y - 1) - hy b2 \<ge> 0
                       then for_each (\<lambda>ix c. add_rank c (x + ix) ((y - 1) - hy c)) [- hx b2 .. hx b2] b2
                       else Some b2) of
                   None \<Rightarrow> None
                 | Some b3 \<Rightarrow> up_sweep emit x y0v b3 out1 (y - 1))))
      else Some (b, out, y))"
  by pat_completeness auto
termination
  by (relation "measure (\<lambda>(emit, x, y0v, b, out, y). nat (y - y0v))") auto

declare down_sweep.simps [simp del] up_sweep.simps [simp del]

text \<open>One column of window cells, rows \<open>lo..hi\<close>, removed or added.\<close>

definition remove_col :: "Block \<Rightarrow> int \<Rightarrow> int \<Rightarrow> int \<Rightarrow> Block option" where
  "remove_col b ix lo hi = for_each (\<lambda>jy c. remove_rank c ix jy) [lo .. hi] b"

definition add_col :: "Block \<Rightarrow> int \<Rightarrow> int \<Rightarrow> int \<Rightarrow> Block option" where
  "add_col b ix lo hi = for_each (\<lambda>jy c. add_rank c ix jy) [lo .. hi] b"

function col_loop :: "'o emit \<Rightarrow> int \<Rightarrow> Block \<Rightarrow> 'o \<Rightarrow> int \<Rightarrow> (Block \<times> 'o) option" where
  "col_loop emit x1v b out x =
     (if x \<le> x1v then
        (case remove_col b (x - hx b) (y0 b - hy b) (y0 b + hy b) of
           None \<Rightarrow> None
         | Some b1 \<Rightarrow>
            if x + 1 > x1v then Some (b1, out)
            else
              (case add_col b1 ((x + 1) + hx b1) (y0 b1 - hy b1) (y0 b1 + hy b1) of
                 None \<Rightarrow> None
               | Some b2 \<Rightarrow>
                  (case down_sweep emit (x + 1) (y1 b2) b2 out (y0 b2) of
                     None \<Rightarrow> None
                   | Some (b3, out3, y) \<Rightarrow>
                      (case emit b3 (x + 1) y out3 of
                         None \<Rightarrow> None
                       | Some (b4, out4) \<Rightarrow>
                          (case remove_col b4 ((x + 1) - hx b4) (y - hy b4) (y + hy b4) of
                             None \<Rightarrow> None
                           | Some b5 \<Rightarrow>
                              if x + 2 > x1v then Some (b5, out4)
                              else
                                (case add_col b5 ((x + 2) + hx b5) (y - hy b5) (y + hy b5) of
                                   None \<Rightarrow> None
                                 | Some b6 \<Rightarrow>
                                    (case up_sweep emit (x + 2) (y0 b6) b6 out4 (y1 b6) of
                                       None \<Rightarrow> None
                                     | Some (b7, out7, y') \<Rightarrow>
                                        (case emit b7 (x + 2) y' out7 of
                                           None \<Rightarrow> None
                                         | Some (b8, out8) \<Rightarrow> col_loop emit x1v b8 out8 (x + 2)))))))))
      else Some (b, out))"
  by pat_completeness auto
termination
  by (relation "measure (\<lambda>(emit, x1v, b, out, x). nat (x1v - x + 1))") auto

declare col_loop.simps [simp del]

definition traverse :: "'o emit \<Rightarrow> Block \<Rightarrow> 'o \<Rightarrow> (Block \<times> 'o) option" where
  "traverse emit b out = do {
     b1 \<leftarrow> for_each (\<lambda>ix c. add_col c ix (y0 c - hy c) (y0 c + hy c))
            [x0 b - hx b .. x0 b + hx b - 1] b;
     col_loop emit (x1 b1) b1 out (x0 b1 - 1) }"

definition put_median :: "real list emit" where
  "put_median b x y out = do {
     (v, b1) \<leftarrow> get_median b;
     out1 \<leftarrow> wr out ((x + x0b b1) + nx b1 * (y + y0b b1)) v;
     Some (b1, out1) }"

definition compute_median :: "Block \<Rightarrow> real list \<Rightarrow> real list option" where
  "compute_median b out = map_option snd (traverse put_median b out)"

section \<open>The tile driver\<close>

text \<open>\<open>(int)std::sqrt(n)\<close> for a non-negative \<open>int\<close>: the integer square root.\<close>

definition int_sqrt :: "int \<Rightarrow> int" where
  "int_sqrt n = int (length (filter (\<lambda>k. int k * int k \<le> n) [1..<Suc (nat n)]))"

text \<open>The block sizes \<open>(Bx, By)\<close>, from the number of threads.\<close>

definition block_sizes :: "int \<Rightarrow> int \<Rightarrow> int \<Rightarrow> int \<times> int" where
  "block_sizes num_threads nyv nxv =
     (let target_blocks = max (num_threads * 3) 4;
          blocks_per_dim = max 1 (int_sqrt target_blocks);
          Bx = max 32 ((nxv + blocks_per_dim - 1) sdiv blocks_per_dim);
          By = max 32 ((nyv + blocks_per_dim - 1) sdiv blocks_per_dim);
          Bx = (if nxv \<le> 64 \<and> nyv \<le> 64 then nxv else Bx);
          By = (if nxv \<le> 64 \<and> nyv \<le> 64 then nyv else By)
      in (min Bx (max (nxv sdiv 2) 64), min By (max (nyv sdiv 2) 64)))"

text \<open>
  The two loops over the blocks. The iterations write disjoint parts of the output and
  read nothing another iteration writes; they are run here in row-major order.
\<close>

partial_function (option) blocks_x ::
  "((real \<times> int) list \<Rightarrow> (real \<times> int) list) \<Rightarrow> real list \<Rightarrow> int \<Rightarrow> int \<Rightarrow> int \<Rightarrow> int \<Rightarrow>
   int \<Rightarrow> int \<Rightarrow> int \<Rightarrow> int \<Rightarrow> real list \<Rightarrow> real list option" where
  "blocks_x srt inp nyv nxv hyv hxv Bx By yy xx out =
     (if xx < nxv then
        Option.bind
          (Option.bind
             (Block_new srt nyv nxv hyv hxv inp xx yy (min (xx + Bx - 1) (nxv - 1)) (min (yy + By - 1) (nyv - 1)))
             (\<lambda>block. compute_median block out))
          (\<lambda>out1. blocks_x srt inp nyv nxv hyv hxv Bx By yy (xx + Bx) out1)
      else Some out)"

partial_function (option) blocks_y ::
  "((real \<times> int) list \<Rightarrow> (real \<times> int) list) \<Rightarrow> real list \<Rightarrow> int \<Rightarrow> int \<Rightarrow> int \<Rightarrow> int \<Rightarrow>
   int \<Rightarrow> int \<Rightarrow> int \<Rightarrow> real list \<Rightarrow> real list option" where
  "blocks_y srt inp nyv nxv hyv hxv Bx By yy out =
     (if yy < nyv then
        Option.bind (blocks_x srt inp nyv nxv hyv hxv Bx By yy 0 out)
          (\<lambda>out1. blocks_y srt inp nyv nxv hyv hxv Bx By (yy + By) out1)
      else Some out)"

declare blocks_x.simps [code] blocks_y.simps [code]

definition median_filterv4 ::
  "((real \<times> int) list \<Rightarrow> (real \<times> int) list) \<Rightarrow> int \<Rightarrow> real list \<Rightarrow> real list \<Rightarrow>
   int \<Rightarrow> int \<Rightarrow> int \<Rightarrow> int \<Rightarrow> real list option" where
  "median_filterv4 srt num_threads inp out nyv nxv hyv hxv =
     (let (Bx, By) = block_sizes num_threads nyv nxv
      in blocks_y srt inp nyv nxv hyv hxv Bx By 0 out)"

section \<open>The full-sort reference\<close>

text \<open>The pixels gathered for output pixel \<open>(y, x)\<close>, in the order the two loops store them.\<close>

definition pixels_v1 :: "real list \<Rightarrow> int \<Rightarrow> int \<Rightarrow> int \<Rightarrow> int \<Rightarrow> int \<Rightarrow> int \<Rightarrow> real list" where
  "pixels_v1 inp nyv nxv hyv hxv y x =
     concat (map (\<lambda>i. map (\<lambda>j. inp ! nat (nxv * i + j))
                          [max (x - hxv) 0 .. min (x + hxv + 1) nxv - 1])
                 [max (y - hyv) 0 .. min (y + hyv + 1) nyv - 1])"

definition median_v1 :: "real list \<Rightarrow> real" where
  "median_v1 pixels =
     (let s = sort pixels;
          len = int (length s);
          mid = len sdiv 2
      in if len smod 2 = 1 then s ! nat mid
         else 0.5 * (s ! nat mid + s ! nat (mid - 1)))"

definition median_filterv1 ::
  "real list \<Rightarrow> real list \<Rightarrow> int \<Rightarrow> int \<Rightarrow> int \<Rightarrow> int \<Rightarrow> real list" where
  "median_filterv1 inp out nyv nxv hyv hxv =
     fold (\<lambda>y out. fold (\<lambda>x out.
             out[nat (nxv * y + x) := median_v1 (pixels_v1 inp nyv nxv hyv hxv y x)])
           [0 .. nxv - 1] out)
          [0 .. nyv - 1] out"


section \<open>The histogram window of the 8-bit filter\<close>






section \<open>Vocabulary of the specification\<close>



text \<open>Bit \<open>r\<close> of the bitmap, and the ranks whose bit is set, in ascending order.\<close>

definition bit_at :: "u64 list \<Rightarrow> nat \<Rightarrow> bool" where
  "bit_at bf r = (r div 64 < length bf \<and> bit (bf ! (r div 64)) (r mod 64))"

definition set_ranks :: "u64 list \<Rightarrow> nat list" where
  "set_ranks bf = filter (bit_at bf) [0..<64 * length bf]"


text \<open>The bookkeeping of the two running counts around the pivot word \<open>p\<close>.\<close>

definition psum_inv :: "Block \<Rightarrow> bool" where
  "psum_inv b =
     (0 \<le> p b \<and> p b \<le> words b \<and> int (length (buff b)) = words b \<and>
      fst (psum b) = sum_list (map popcountll (take (nat (p b)) (buff b))) \<and>
      fst (psum b) + snd (psum b) = sum_list (map popcountll (buff b)))"

text \<open>
  A tile-local cell lies in the tile; its rank-table entry is a bit position of the
  bitmap; its bit is set.
\<close>

definition in_tile :: "Block \<Rightarrow> int \<Rightarrow> int \<Rightarrow> bool" where
  "in_tile b ix jy = (0 \<le> ix \<and> ix < bx b \<and> 0 \<le> jy \<and> jy < by' b)"

definition rank_ok :: "Block \<Rightarrow> int \<Rightarrow> int \<Rightarrow> bool" where
  "rank_ok b ix jy =
     (jy * bx b + ix < int (length (ranks b)) \<and> 0 \<le> ranks b ! nat (jy * bx b + ix) \<and>
      ranks b ! nat (jy * bx b + ix) < 64 * int (length (buff b)))"

definition cell_bit :: "Block \<Rightarrow> int \<Rightarrow> int \<Rightarrow> bool" where
  "cell_bit b ix jy = bit_at (buff b) (nat (ranks b ! nat (jy * bx b + ix)))"

text \<open>
  The value of the tile pixel with tile-local index \<open>k\<close> (row-major), and the list the
  constructor hands to \<open>std::sort\<close>: each tile pixel paired with its index.
\<close>

definition tile_val :: "real list \<Rightarrow> int \<Rightarrow> int \<Rightarrow> int \<Rightarrow> int \<Rightarrow> nat \<Rightarrow> real" where
  "tile_val inp nxv x0bv y0bv bxv k =
     inp ! nat ((y0bv + int k div bxv) * nxv + (x0bv + int k mod bxv))"

definition tile_pairs :: "real list \<Rightarrow> int \<Rightarrow> int \<Rightarrow> int \<Rightarrow> int \<Rightarrow> int \<Rightarrow> (real \<times> int) list" where
  "tile_pairs inp nxv x0bv y0bv bxv byv =
     map (\<lambda>k. (tile_val inp nxv x0bv y0bv bxv k, int k)) [0..<nat (bxv * byv)]"

text \<open>
  The geometry of a block built for an interior rectangle inside the image, and the
  relation of its tables to the image: \<open>sorted'\<close> ascends in the values, and the rank
  table sends the index of a tile pixel to the position of that pixel in \<open>sorted'\<close>.
\<close>

definition geom_ok :: "Block \<Rightarrow> bool" where
  "geom_ok b =
     (0 < nx b \<and> 0 < ny b \<and> 0 \<le> hx b \<and> 0 \<le> hy b \<and>
      0 \<le> x0i b \<and> x0i b \<le> x1i b \<and> x1i b < nx b \<and>
      0 \<le> y0i b \<and> y0i b \<le> y1i b \<and> y1i b < ny b \<and>
      x0b b = max (x0i b - hx b) 0 \<and> y0b b = max (y0i b - hy b) 0 \<and>
      x1b b = min (x1i b + hx b) (nx b - 1) \<and> y1b b = min (y1i b + hy b) (ny b - 1) \<and>
      x0 b = x0i b - x0b b \<and> y0 b = y0i b - y0b b \<and>
      x1 b = x1i b - x0b b \<and> y1 b = y1i b - y0b b \<and>
      bx b = x1b b - x0b b + 1 \<and> by' b = y1b b - y0b b + 1)"

definition tables_ok :: "real list \<Rightarrow> Block \<Rightarrow> bool" where
  "tables_ok inp b =
     (length (sorted' b) = nat (bx b * by' b) \<and> length (ranks b) = nat (bx b * by' b) \<and>
      words b = (bx b * by' b + 63) div 64 \<and> int (length (buff b)) = words b \<and>
      sorted (map fst (sorted' b)) \<and>
      (\<forall>k < nat (bx b * by' b).
         0 \<le> ranks b ! k \<and> ranks b ! k < bx b * by' b \<and>
         sorted' b ! nat (ranks b ! k) = (tile_val inp (nx b) (x0b b) (y0b b) (bx b) k, int k)) \<and>
      (\<forall>r < nat (bx b * by' b).
         0 \<le> snd (sorted' b ! r) \<and> snd (sorted' b ! r) < bx b * by' b \<and>
         ranks b ! nat (snd (sorted' b ! r)) = int r))"

text \<open>
  The state of a block during a traversal: the tables fit the image, the running counts
  fit the bitmap, and only ranks of tile pixels are set. \<open>win b\<close> is the set of
  tile-local cells whose rank is set; \<open>frame b b'\<close> says that \<open>b'\<close> differs from \<open>b\<close> in
  the pivot, the counts and the bitmap only.
\<close>

definition binv :: "real list \<Rightarrow> Block \<Rightarrow> bool" where
  "binv inp b =
     (geom_ok b \<and> tables_ok inp b \<and> psum_inv b \<and> int (length inp) = ny b * nx b \<and>
      (\<forall>r. bit_at (buff b) r \<longrightarrow> r < nat (bx b * by' b)))"

definition win :: "Block \<Rightarrow> (int \<times> int) set" where
  "win b = {(ix, jy). in_tile b ix jy \<and> cell_bit b ix jy}"

text \<open>The kernel cells of the tile-local pixel \<open>(x, y)\<close> that lie in the tile.\<close>

definition window :: "Block \<Rightarrow> int \<Rightarrow> int \<Rightarrow> (int \<times> int) set" where
  "window b x y =
     {(i, j). in_tile b i j \<and> x - hx b \<le> i \<and> i \<le> x + hx b \<and> y - hy b \<le> j \<and> j \<le> y + hy b}"

text \<open>The image value under a tile-local cell.\<close>

definition cell_val :: "real list \<Rightarrow> Block \<Rightarrow> int \<times> int \<Rightarrow> real" where
  "cell_val inp b c = inp ! nat ((y0b b + snd c) * nx b + (x0b b + fst c))"

definition frame :: "Block \<Rightarrow> Block \<Rightarrow> bool" where
  "frame b b' = (b' = b\<lparr>p := p b', psum := psum b', buff := buff b'\<rparr>)"

text \<open>
  What the traversal needs of the action it performs at an output pixel: called in a
  state whose window is the kernel of the pixel, it returns, changes at most the pivot and
  the counts, and takes the observation \<open>out\<close> from \<open>Q S\<close> to \<open>Q (insert (x, y) S)\<close>, where
  \<open>S\<close> is the set of pixels visited before.
\<close>

definition emit_ok ::
  "real list \<Rightarrow> Block \<Rightarrow> 'o emit \<Rightarrow> ((int \<times> int) set \<Rightarrow> 'o \<Rightarrow> bool) \<Rightarrow> bool" where
  "emit_ok inp b0 emit Q =
     (\<forall>b x y out S.
        binv inp b \<and> frame b0 b \<and> win b = window b0 x y \<and>
        x0 b0 \<le> x \<and> x \<le> x1 b0 \<and> y0 b0 \<le> y \<and> y \<le> y1 b0 \<and> Q S out \<longrightarrow>
        (\<exists>b' out'. emit b x y out = Some (b', out') \<and> frame b b' \<and> binv inp b' \<and>
                   win b' = win b \<and> Q (insert (x, y) S) out'))"

text \<open>
  The output buffer after the tile-local pixels \<open>S\<close> of a block have been written: each
  holds the reference median of its pixel, and every other entry is as in \<open>out0\<close>.
\<close>

definition out_ok :: "real list \<Rightarrow> Block \<Rightarrow> real list \<Rightarrow> (int \<times> int) set \<Rightarrow> real list \<Rightarrow> bool" where
  "out_ok inp b out0 S out =
     (length out = length out0 \<and>
      S \<subseteq> {(i, j). x0 b \<le> i \<and> i \<le> x1 b \<and> y0 b \<le> j \<and> j \<le> y1 b} \<and>
      (\<forall>(i, j) \<in> S. out ! nat ((i + x0b b) + nx b * (j + y0b b)) =
          median_v1 (pixels_v1 inp (ny b) (nx b) (hy b) (hx b) (j + y0b b) (i + x0b b))) \<and>
      (\<forall>k. k \<notin> (\<lambda>(i, j). nat ((i + x0b b) + nx b * (j + y0b b))) ` S \<longrightarrow> out ! k = out0 ! k))"

text \<open>
  The output buffer holds the reference median at each of the pixels \<open>(gy, gx)\<close> of \<open>D\<close>.
\<close>

definition ref_on ::
  "real list \<Rightarrow> int \<Rightarrow> int \<Rightarrow> int \<Rightarrow> int \<Rightarrow> (int \<times> int) set \<Rightarrow> real list \<Rightarrow> bool" where
  "ref_on inp nyv nxv hyv hxv D out =
     (int (length out) = nyv * nxv \<and>
      (\<forall>(gy, gx) \<in> D. out ! nat (nxv * gy + gx) = median_v1 (pixels_v1 inp nyv nxv hyv hxv gy gx)))"

text \<open>
  A second action for the traversal: it calls \<open>get_median\<close> as the source does at an
  output pixel, and records the pixel together with the cardinality \<open>psum[0] + psum[1]\<close>
  found immediately before the call. \<open>kernel_cells_in_image\<close> counts the kernel cells of
  the image pixel \<open>(gy, gx)\<close> whose coordinates lie inside the image.
\<close>

definition probe :: "(int \<times> int \<times> int) list emit" where
  "probe b x y tr = do {
     (v, b1) \<leftarrow> get_median b;
     Some (b1, tr @ [(x, y, fst (psum b) + snd (psum b))]) }"

definition kernel_cells_in_image :: "int \<Rightarrow> int \<Rightarrow> int \<Rightarrow> int \<Rightarrow> int \<Rightarrow> int \<Rightarrow> int" where
  "kernel_cells_in_image nyv nxv hyv hxv gy gx =
     int (length (filter (\<lambda>(i, j). 0 \<le> i \<and> i < nyv \<and> 0 \<le> j \<and> j < nxv)
                    (List.product [gy - hyv .. gy + hyv] [gx - hxv .. gx + hxv])))"

text \<open>The recorded entries are those of the pixels \<open>S\<close>, each with the size of its window.\<close>

definition probe_ok :: "Block \<Rightarrow> (int \<times> int) set \<Rightarrow> (int \<times> int \<times> int) list \<Rightarrow> bool" where
  "probe_ok b0 S tr =
     ((\<lambda>(x, y, s). (x, y)) ` set tr = S \<and>
      (\<forall>(x, y, s) \<in> set tr.
         x0 b0 \<le> x \<and> x \<le> x1 b0 \<and> y0 b0 \<le> y \<and> y \<le> y1 b0 \<and> s = int (card (window b0 x y))))"

text \<open>
  A block in the middle of a traversal, used to instantiate the theorems: the tile is the
  3 by 3 image \<open>1..9\<close>, and the ranks 2, 3 and 5 are in the window.
\<close>

definition example_block :: Block where
  "example_block =
     \<lparr> nx = 3, ny = 3, bx = 3, by' = 3, hy = 1, hx = 1, x0b = 0, x1b = 2, y0b = 0, y1b = 2,
       x0i = 0, y0i = 0, x1i = 2, y1i = 2, x0 = 0, y0 = 0, x1 = 2, y1 = 2,
       words = 1, p = 0, psum = (0, 3),
       sorted' = [(1, 0), (2, 1), (3, 2), (4, 3), (5, 4), (6, 5), (7, 6), (8, 7), (9, 8)],
       ranks = [0, 1, 2, 3, 4, 5, 6, 7, 8], buff = [44] \<rparr>"

text \<open>The bitmap with bit \<open>r\<close> flipped.\<close>

definition toggle :: "u64 list \<Rightarrow> nat \<Rightarrow> u64 list" where
  "toggle bf r = bf[r div 64 := bf ! (r div 64) XOR push_bit (r mod 64) 1]"

section \<open>The sort of the GNU C++ library\<close>

text \<open>
  \<open>std::sort\<close> as the GNU C++ library implements it (\<open>bits/stl_algo.h\<close>, \<open>bits/stl_heap.h\<close>):
  an introsort that partitions around a median of three down to ranges of 16 elements,
  falls back on heap sort when the recursion depth is used up, and finishes with an
  insertion sort. The array is a list, an iterator is an index, \<open>lt\<close> is the comparator.
  Every access is checked: with a comparator that is not a strict weak ordering the
  unguarded loops can leave the array, which is the value \<open>None\<close>.
\<close>



























subsection \<open>Accesses\<close>

lemma rd_Some_iff: "rd xs i = Some v \<longleftrightarrow> 0 \<le> i \<and> i < int (length xs) \<and> v = xs ! nat i"
  by (auto simp: rd_def)

lemma rd_in: "0 \<le> i \<Longrightarrow> i < int (length xs) \<Longrightarrow> rd xs i = Some (xs ! nat i)"
  by (simp add: rd_def)

lemma wr_in: "0 \<le> i \<Longrightarrow> i < int (length xs) \<Longrightarrow> wr xs i v = Some (xs[nat i := v])"
  by (simp add: wr_def)

lemma wr_Some_iff: "wr xs i v = Some ys \<longleftrightarrow> 0 \<le> i \<and> i < int (length xs) \<and> ys = xs[nat i := v]"
  by (auto simp: wr_def)

lemma for_each_append:
  "for_each f (xs @ ys) s = (case for_each f xs s of None \<Rightarrow> None | Some s' \<Rightarrow> for_each f ys s')"
  by (induction xs arbitrary: s) (auto split: option.splits)

lemma for_each_rule_aux:
  assumes step: "\<And>ys i zs s. js = ys @ i # zs \<Longrightarrow> I ys s \<Longrightarrow> \<exists>s'. f i s = Some s' \<and> I (ys @ [i]) s'"
  shows "js = pre @ rest \<Longrightarrow> I pre s \<Longrightarrow> \<exists>s'. for_each f rest s = Some s' \<and> I js s'"
proof (induction rest arbitrary: pre s)
  case Nil
  then show ?case by simp
next
  case (Cons i rest)
  from step[OF Cons.prems(1) Cons.prems(2)] obtain s' where s': "f i s = Some s'" "I (pre @ [i]) s'"
    by blast
  have "js = (pre @ [i]) @ rest" using Cons.prems(1) by simp
  from Cons.IH[OF this s'(2)] show ?case using s'(1) by simp
qed

lemma for_each_rule:
  assumes "I [] s"
    and "\<And>ys i zs s. js = ys @ i # zs \<Longrightarrow> I ys s \<Longrightarrow> \<exists>s'. f i s = Some s' \<and> I (ys @ [i]) s'"
  shows "\<exists>s'. for_each f js s = Some s' \<and> I js s'"
  using for_each_rule_aux[of js I f "[]" js s] assms by simp

subsection \<open>Counting set bits\<close>

lemma bit_u64_less: "bit (w :: u64) i \<Longrightarrow> i < 64"
  using bit_imp_le_length[of w i] by simp

lemma length_filter_upt: "length (filter P [0..<n]) = card {i. i < n \<and> P i}"
proof -
  have "card (set (filter P [0..<n])) = length (filter P [0..<n])"
    by (rule distinct_card) simp
  moreover have "set (filter P [0..<n]) = {i. i < n \<and> P i}" by auto
  ultimately show ?thesis by simp
qed

lemma popcountll_card: "popcountll w = int (card {i. bit w i})"
proof -
  have "{i. i < 64 \<and> bit w i} = {i. bit w i}" using bit_u64_less by blast
  then show ?thesis by (simp add: popcountll_def length_filter_upt)
qed

lemma popcountll_nonneg: "0 \<le> popcountll w"
  by (simp add: popcountll_def)

lemma finite_bits_u64: "finite {i. bit (w :: u64) i}"
  by (rule finite_subset[of _ "{..<64}"]) (auto dest: bit_u64_less)

lemma popcountll_le: "popcountll w \<le> 64"
proof -
  have "card {i. bit w i} \<le> card {..<64::nat}"
    by (rule card_mono) (auto dest: bit_u64_less)
  then show ?thesis by (simp add: popcountll_card)
qed

text \<open>The n-th element of a finite set of naturals has exactly n elements below it.\<close>

lemma nth_sorted_distinct_below:
  assumes "sorted xs" "distinct xs" "n < length xs"
  shows "{i \<in> set xs. i < xs ! n} = set (take n xs)"
proof (intro set_eqI iffI)
  fix i assume "i \<in> {i \<in> set xs. i < xs ! n}"
  then obtain k where k: "k < length xs" "xs ! k = i" and lt: "i < xs ! n"
    by (auto simp: in_set_conv_nth)
  have "k < n"
  proof (rule ccontr)
    assume "\<not> k < n"
    then have "xs ! n \<le> xs ! k" using assms(1) k(1) by (simp add: sorted_nth_mono)
    with lt k show False by simp
  qed
  then show "i \<in> set (take n xs)" using k assms(3) by (auto simp: in_set_conv_nth)
next
  fix i assume "i \<in> set (take n xs)"
  then obtain k where k: "k < n" "xs ! k = i" using assms(3)
    by (auto simp: in_set_conv_nth)
  have "xs ! k \<le> xs ! n" using assms(1,3) k(1) by (simp add: sorted_nth_mono)
  moreover have "xs ! k \<noteq> xs ! n" using assms(2,3) k(1) by (simp add: nth_eq_iff_index_eq)
  ultimately show "i \<in> {i \<in> set xs. i < xs ! n}" using k assms(3) by auto
qed

lemma card_below_nth:
  fixes xs :: "nat list"
  assumes "sorted xs" "distinct xs" "n < length xs"
  shows "card {i \<in> set xs. i < xs ! n} = n"
proof -
  have "card (set (take n xs)) = length (take n xs)"
    using assms(2) by (intro distinct_card) simp
  then show ?thesis using assms by (simp add: nth_sorted_distinct_below)
qed

lemma nth_member_exists:
  fixes S :: "nat set"
  assumes "finite S" "n < card S"
  shows "\<exists>j\<in>S. card {i \<in> S. i < j} = n"
proof -
  let ?xs = "sorted_list_of_set S"
  have "sorted ?xs" "distinct ?xs" "set ?xs = S" "length ?xs = card S"
    using assms(1) by simp_all
  with card_below_nth[of ?xs n] assms(2) have "card {i \<in> S. i < ?xs ! n} = n" by simp
  moreover have "?xs ! n \<in> S" using \<open>set ?xs = S\<close> \<open>length ?xs = card S\<close> assms(2)
    by (metis nth_mem)
  ultimately show ?thesis by blast
qed

lemma card_below_inj:
  fixes S :: "nat set"
  assumes "finite S" "j \<in> S" "j' \<in> S" "card {i \<in> S. i < j} = card {i \<in> S. i < j'}"
  shows "j = j'"
proof (rule ccontr)
  assume ne: "j \<noteq> j'"
  have aux: "card {i \<in> S. i < a} < card {i \<in> S. i < b}" if "a < b" "a \<in> S" for a b
  proof (rule psubset_card_mono)
    show "finite {i \<in> S. i < b}" using assms(1) by simp
    show "{i \<in> S. i < a} \<subset> {i \<in> S. i < b}" using that by auto
  qed
  from ne have "j < j' \<or> j' < j" by auto
  then show False using aux[of j j'] aux[of j' j] assms by auto
qed

subsection \<open>Bit deposit and trailing zeros\<close>

lemma pdep_prefix:
  "m \<le> 64 \<Longrightarrow>
   fst (fold (pdep_step src msk) [0..<m] (0, 0)) = card {i. i < m \<and> bit msk i} \<and>
   (\<forall>j. bit (snd (fold (pdep_step src msk) [0..<m] (0, 0))) j \<longleftrightarrow>
        j < m \<and> bit msk j \<and> bit src (card {i. i < j \<and> bit msk i}))"
proof (induction m)
  case 0
  then show ?case by simp
next
  case (Suc m)
  obtain k dest where st: "fold (pdep_step src msk) [0..<m] (0, 0) = (k, dest)"
    by (cases "fold (pdep_step src msk) [0..<m] (0, 0)")
  from Suc st have k: "k = card {i. i < m \<and> bit msk i}"
    and dest: "\<And>j. bit dest j \<longleftrightarrow> j < m \<and> bit msk j \<and> bit src (card {i. i < j \<and> bit msk i})"
    by auto
  have m64: "m < 64" using Suc.prems by simp
  have split: "{i. i < Suc m \<and> bit msk i} = (if bit msk m then insert m {i. i < m \<and> bit msk i} else {i. i < m \<and> bit msk i})"
    by (auto simp: less_Suc_eq)
  have card_Suc: "card {i. i < Suc m \<and> bit msk i} = (if bit msk m then Suc k else k)"
    unfolding split k by simp
  have unroll: "fold (pdep_step src msk) [0..<Suc m] (0, 0) = pdep_step src msk m (k, dest)"
    by (simp add: st)
  have fst_ok: "fst (fold (pdep_step src msk) [0..<Suc m] (0, 0)) = card {i. i < Suc m \<and> bit msk i}"
    unfolding unroll card_Suc by (simp add: pdep_step_def)
  have snd_ok: "bit (snd (fold (pdep_step src msk) [0..<Suc m] (0, 0))) j \<longleftrightarrow>
        j < Suc m \<and> bit msk j \<and> bit src (card {i. i < j \<and> bit msk i})" for j
  proof (cases "bit msk m \<and> bit src k")
    case True
    then have "snd (fold (pdep_step src msk) [0..<Suc m] (0, 0)) = set_bit m dest"
      unfolding unroll by (simp add: pdep_step_def)
    then show ?thesis using True m64 dest[of j] k
      by (auto simp: bit_set_bit_iff less_Suc_eq bit_simps)
  next
    case False
    then have "snd (fold (pdep_step src msk) [0..<Suc m] (0, 0)) = dest"
      unfolding unroll by (auto simp: pdep_step_def)
    then show ?thesis using False dest[of j] k
      by (auto simp: less_Suc_eq)
  qed
  show ?case using fst_ok snd_ok by blast
qed

lemma bit_pdep_u64:
  "bit (pdep_u64 src msk) j \<longleftrightarrow> bit msk j \<and> bit src (card {i. i < j \<and> bit msk i})"
proof -
  have "pdep_u64 src msk = snd (fold (pdep_step src msk) [0..<64] (0, 0))"
    by (simp add: pdep_u64_def pdep_step_def)
  then show ?thesis using pdep_prefix[of 64 src msk] by (auto dest: bit_u64_less)
qed

lemma bit_push_bit_one_u64: "n < 64 \<Longrightarrow> bit (push_bit n 1 :: u64) k \<longleftrightarrow> k = n"
  by (auto simp: bit_simps)

lemma bit_exp_u64: "n < 64 \<Longrightarrow> bit (2 ^ n :: u64) k \<longleftrightarrow> k = n"
  by (auto simp: bit_simps)

lemma ctzll_Some_iff:
  "ctzll x = Some bp \<longleftrightarrow> (\<exists>j. bp = int j \<and> bit x j \<and> (\<forall>i<j. \<not> bit x i))"
proof -
  have "List.find (bit x) [0..<64] = Some j \<longleftrightarrow> bit x j \<and> (\<forall>i<j. \<not> bit x i)" for j
  proof
    assume "List.find (bit x) [0..<64] = Some j"
    then obtain i where i: "i < 64" "bit x ([0..<64] ! i)" "j = [0..<64] ! i"
        "\<forall>k<i. \<not> bit x ([0..<64] ! k)"
      unfolding find_Some_iff by auto
    from i(1,3) have ji: "j = i" by simp
    have "\<not> bit x k" if "k < j" for k
    proof -
      from that ji i(1) have "k < i" "k < 64" by auto
      from i(4) \<open>k < i\<close> have "\<not> bit x ([0..<64] ! k)" by blast
      then show ?thesis using \<open>k < 64\<close> by simp
    qed
    with i(2) ji i(1) show "bit x j \<and> (\<forall>i<j. \<not> bit x i)" by simp
  next
    assume a: "bit x j \<and> (\<forall>i<j. \<not> bit x i)"
    then have j64: "j < 64" by (auto dest: bit_u64_less)
    have "bit x ([0..<64] ! j)" "j = [0..<64] ! j" using a j64 by simp_all
    moreover have "\<forall>k<j. \<not> bit x ([0..<64] ! k)" using a j64 by simp
    ultimately show "List.find (bit x) [0..<64] = Some j"
      unfolding find_Some_iff using j64 by (intro exI[of _ j]) simp
  qed
  then show ?thesis by (auto simp: ctzll_def)
qed

lemma select_word:
  assumes "int n < popcountll w"
  shows "\<exists>j. ctzll (pdep_u64 (push_bit n 1) w) = Some (int j) \<and> j < 64 \<and> bit w j \<and>
             card {i. i < j \<and> bit w i} = n"
proof -
  let ?S = "{i. bit w i}"
  have fin: "finite ?S" by (rule finite_bits_u64)
  have n: "n < card ?S" using assms by (simp add: popcountll_card)
  have n64: "n < 64" using assms popcountll_le[of w] by simp
  from nth_member_exists[OF fin n] obtain j where j: "bit w j" "card {i \<in> ?S. i < j} = n"
    by auto
  have cj: "card {i. i < j \<and> bit w i} = n"
  proof -
    have "{i \<in> ?S. i < j} = {i. i < j \<and> bit w i}" by auto
    with j(2) show ?thesis by simp
  qed
  have bitx: "bit (pdep_u64 (push_bit n 1) w) i \<longleftrightarrow> bit w i \<and> card {k. k < i \<and> bit w k} = n" for i
    unfolding bit_pdep_u64 bit_push_bit_one_u64[OF n64] by simp
  have uniq: "i = j" if "bit (pdep_u64 (push_bit n 1) w) i" for i
  proof -
    from that bitx have i: "bit w i" "card {k. k < i \<and> bit w k} = n" by auto
    have e1: "{k \<in> ?S. k < i} = {k. k < i \<and> bit w k}" by auto
    have e2: "{k \<in> ?S. k < j} = {k. k < j \<and> bit w k}" by auto
    show ?thesis
      by (rule card_below_inj[OF fin]) (use i j cj e1 e2 in auto)
  qed
  have "bit (pdep_u64 (push_bit n 1) w) j" using j(1) cj bitx by simp
  moreover have "\<forall>i<j. \<not> bit (pdep_u64 (push_bit n 1) w) i" using uniq by auto
  ultimately have "ctzll (pdep_u64 (push_bit n 1) w) = Some (int j)"
    unfolding ctzll_Some_iff by blast
  then show ?thesis using j(1) cj bit_u64_less[OF j(1)] by blast
qed

subsection \<open>The bitmap as a set of ranks\<close>

lemma bit_at_less: "bit_at bf r \<Longrightarrow> r < 64 * length bf"
  by (auto simp: bit_at_def)

lemma finite_bit_at: "finite {r. bit_at bf r}"
  by (rule finite_subset[of _ "{..<64 * length bf}"]) (auto dest: bit_at_less)

lemma set_set_ranks: "set (set_ranks bf) = {r. bit_at bf r}"
  by (auto simp: set_ranks_def dest: bit_at_less)

lemma sorted_set_ranks: "sorted (set_ranks bf)"
  by (simp add: set_ranks_def sorted_wrt_filter)

lemma distinct_set_ranks: "distinct (set_ranks bf)"
  by (simp add: set_ranks_def)

lemma length_set_ranks: "length (set_ranks bf) = card {r. bit_at bf r}"
  using distinct_card[OF distinct_set_ranks, of bf] by (simp add: set_set_ranks)

lemma word_block_card:
  assumes "n < length bf"
  shows "card {r. bit_at bf r \<and> 64 * n \<le> r \<and> r < 64 * n + 64} = card {i. bit (bf ! n) i}"
proof -
  have "{r. bit_at bf r \<and> 64 * n \<le> r \<and> r < 64 * n + 64} = (\<lambda>i. 64 * n + i) ` {i. bit (bf ! n) i}"
  proof (intro set_eqI iffI)
    fix r assume "r \<in> {r. bit_at bf r \<and> 64 * n \<le> r \<and> r < 64 * n + 64}"
    then have r: "bit_at bf r" "64 * n \<le> r" "r < 64 * n + 64" by auto
    then have d: "r div 64 = n" by auto
    have m: "r = 64 * n + r mod 64" using d by (metis mult_div_mod_eq)
    from r(1) d have "bit (bf ! n) (r mod 64)" by (simp add: bit_at_def)
    with m show "r \<in> (\<lambda>i. 64 * n + i) ` {i. bit (bf ! n) i}" by blast
  next
    fix r assume "r \<in> (\<lambda>i. 64 * n + i) ` {i. bit (bf ! n) i}"
    then obtain i where i: "r = 64 * n + i" "bit (bf ! n) i" by auto
    then have "i < 64" by (auto dest: bit_u64_less)
    then show "r \<in> {r. bit_at bf r \<and> 64 * n \<le> r \<and> r < 64 * n + 64}"
      using i assms by (auto simp: bit_at_def)
  qed
  moreover have "inj_on (\<lambda>i. 64 * n + i) {i. bit (bf ! n) i}" by (auto simp: inj_on_def)
  ultimately show ?thesis by (simp add: card_image)
qed

lemma sum_popcount_take:
  "n \<le> length bf \<Longrightarrow>
   sum_list (map popcountll (take n bf)) = int (card {r. bit_at bf r \<and> r < 64 * n})"
proof (induction n)
  case 0
  then show ?case by simp
next
  case (Suc n)
  then have n: "n < length bf" by simp
  let ?A = "{r. bit_at bf r \<and> r < 64 * n}"
  let ?B = "{r. bit_at bf r \<and> 64 * n \<le> r \<and> r < 64 * n + 64}"
  have un: "{r. bit_at bf r \<and> r < 64 * Suc n} = ?A \<union> ?B" by auto
  have disj: "?A \<inter> ?B = {}" by auto
  have fin: "finite ?A" "finite ?B" using finite_bit_at[of bf] by simp_all
  have "card (?A \<union> ?B) = card ?A + card ?B"
    using card_Un_disjoint[OF fin disj] .
  moreover have "take (Suc n) bf = take n bf @ [bf ! n]" using n by (simp add: take_Suc_conv_app_nth)
  ultimately show ?case using Suc.IH n word_block_card[OF n]
    unfolding un by (simp add: popcountll_card)
qed

lemma sum_popcount_all:
  "sum_list (map popcountll bf) = int (card {r. bit_at bf r})"
proof -
  have "{r. bit_at bf r \<and> r < 64 * length bf} = {r. bit_at bf r}"
    by (auto dest: bit_at_less)
  with sum_popcount_take[of "length bf" bf] show ?thesis by simp
qed

lemma psum_inv_card:
  "psum_inv b \<longleftrightarrow>
     0 \<le> p b \<and> p b \<le> words b \<and> int (length (buff b)) = words b \<and>
     fst (psum b) = int (card {r. bit_at (buff b) r \<and> r < 64 * nat (p b)}) \<and>
     fst (psum b) + snd (psum b) = int (card {r. bit_at (buff b) r})"
proof (cases "0 \<le> p b \<and> p b \<le> words b \<and> int (length (buff b)) = words b")
  case True
  then have "nat (p b) \<le> length (buff b)" by linarith
  from sum_popcount_take[OF this] show ?thesis
    by (simp add: psum_inv_def sum_popcount_all)
next
  case False
  then show ?thesis by (auto simp: psum_inv_def)
qed

subsection \<open>Toggling a bit\<close>

lemma length_toggle [simp]: "length (toggle bf r) = length bf"
  by (simp add: toggle_def)

lemma bit_at_toggle:
  assumes "r < 64 * length bf"
  shows "bit_at (toggle bf r) r' \<longleftrightarrow> (bit_at bf r' \<noteq> (r' = r))"
proof (cases "r' div 64 = r div 64")
  case True
  have lt: "r div 64 < length bf" using assms by auto
  have m: "r mod 64 < 64" "r' mod 64 < 64" by simp_all
  have eq: "r' = r \<longleftrightarrow> r' mod 64 = r mod 64" using True by (metis mult_div_mod_eq)
  have "bit (bf ! (r div 64) XOR push_bit (r mod 64) 1) (r' mod 64) \<longleftrightarrow>
        (bit (bf ! (r div 64)) (r' mod 64) \<noteq> (r' mod 64 = r mod 64))"
    using m by (auto simp: bit_xor_iff bit_exp_u64)
  then show ?thesis using True lt eq by (simp add: bit_at_def toggle_def)
next
  case False
  then have "r' \<noteq> r" by auto
  with False show ?thesis by (auto simp: bit_at_def toggle_def)
qed

lemma bits_toggle_add:
  assumes "r < 64 * length bf" "\<not> bit_at bf r"
  shows "{r'. bit_at (toggle bf r) r'} = insert r {r'. bit_at bf r'}"
  using assms by (auto simp: bit_at_toggle)

lemma bits_toggle_remove:
  assumes "r < 64 * length bf" "bit_at bf r"
  shows "{r'. bit_at (toggle bf r) r'} = {r'. bit_at bf r'} - {r}"
  using assms by (auto simp: bit_at_toggle)

subsection \<open>Integer shifts and masks\<close>

lemma drop_bit_6_int: "drop_bit 6 (r :: int) = r div 64"
  by (simp add: drop_bit_eq_div)

lemma and_63_int: "(r :: int) AND 63 = r mod 64"
proof -
  have "(63 :: int) = mask 6" by (simp add: mask_eq_exp_minus_1)
  then have "r AND 63 = take_bit 6 r" by (simp add: take_bit_eq_mask)
  then show ?thesis by (simp add: take_bit_eq_mod)
qed

lemma push_bit_6_or:
  assumes "0 \<le> j" "j < 64"
  shows "push_bit 6 (q :: int) OR j = 64 * q + j"
proof -
  have j: "j = take_bit 6 j" using assms by (simp add: take_bit_eq_mod)
  have "push_bit 6 q + take_bit 6 j = push_bit 6 q OR take_bit 6 j"
    by (rule disjunctive_add) (auto simp: bit_simps)
  with j show ?thesis by (simp add: push_bit_eq_mult)
qed

lemma sdiv_nonneg: "0 \<le> a \<Longrightarrow> 0 \<le> b \<Longrightarrow> (a :: int) sdiv b = a div b"
  by (cases "a = 0"; cases "b = 0") (simp_all add: signed_divide_int_def sgn_if)

lemma smod_nonneg: "0 \<le> a \<Longrightarrow> 0 \<le> b \<Longrightarrow> (a :: int) smod b = a mod b"
  by (rule smod_mod_positive)

subsection \<open>\<open>add_rank\<close> and \<open>remove_rank\<close>\<close>

lemma toggle_step:
  assumes "0 \<le> ix" "ix < bx b" "0 \<le> jy" "jy < by' b"
    and "jy * bx b + ix < int (length (ranks b))"
    and "0 \<le> ranks b ! nat (jy * bx b + ix)"
    and "ranks b ! nat (jy * bx b + ix) < 64 * int (length (buff b))"
  shows "add_rank b ix jy =
           Some (b\<lparr>buff := toggle (buff b) (nat (ranks b ! nat (jy * bx b + ix))),
                   psum := psum_add (psum b) (p b \<le> ranks b ! nat (jy * bx b + ix) div 64) 1\<rparr>)"
    and "remove_rank b ix jy =
           Some (b\<lparr>buff := toggle (buff b) (nat (ranks b ! nat (jy * bx b + ix))),
                   psum := psum_add (psum b) (p b \<le> ranks b ! nat (jy * bx b + ix) div 64) (- 1)\<rparr>)"
proof -
  let ?k = "jy * bx b + ix"
  let ?r = "ranks b ! nat ?k"
  have k0: "0 \<le> ?k" using assms(1-4) by simp
  have rd1: "rd (ranks b) ?k = Some ?r" using k0 assms(5) by (simp add: rd_def)
  have i0: "0 \<le> ?r div 64" using assms(6) by simp
  have i1: "?r div 64 < int (length (buff b))" using assms(7) by simp
  have n1: "nat (?r div 64) = nat ?r div 64" using assms(6) by (simp add: nat_div_distrib)
  have n2: "nat (?r mod 64) = nat ?r mod 64" using assms(6) by (simp add: nat_mod_distrib)
  have rd2: "rd (buff b) (?r div 64) = Some (buff b ! (nat ?r div 64))"
    using i0 i1 n1 by (simp add: rd_def)
  have wr2: "wr (buff b) (?r div 64) v = Some ((buff b)[nat ?r div 64 := v])" for v
    using i0 i1 n1 by (simp add: wr_def)
  show "add_rank b ix jy =
           Some (b\<lparr>buff := toggle (buff b) (nat ?r),
                   psum := psum_add (psum b) (p b \<le> ?r div 64) 1\<rparr>)"
    using assms(1-4)
    by (simp add: add_rank_def rd1 drop_bit_6_int and_63_int rd2 wr2 n2 toggle_def Let_def)
  show "remove_rank b ix jy =
           Some (b\<lparr>buff := toggle (buff b) (nat ?r),
                   psum := psum_add (psum b) (p b \<le> ?r div 64) (- 1)\<rparr>)"
    using assms(1-4)
    by (simp add: remove_rank_def rd1 drop_bit_6_int and_63_int rd2 wr2 n2 toggle_def Let_def)
qed

lemma rank_outside:
  "ix < 0 \<or> bx b \<le> ix \<or> jy < 0 \<or> by' b \<le> jy \<Longrightarrow> add_rank b ix jy = Some b"
  "ix < 0 \<or> bx b \<le> ix \<or> jy < 0 \<or> by' b \<le> jy \<Longrightarrow> remove_rank b ix jy = Some b"
  by (auto simp: add_rank_def remove_rank_def)

lemma below_pivot_iff:
  assumes "0 \<le> pv"
  shows "r < 64 * nat pv \<longleftrightarrow> \<not> pv \<le> int r div 64"
proof -
  have "r < 64 * nat pv \<longleftrightarrow> r div 64 < nat pv"
    by (simp add: div_less_iff_less_mult mult.commute)
  moreover have "int r div 64 = int (r div 64)" by (simp add: zdiv_int)
  ultimately show ?thesis using assms by auto
qed

lemma psum_inv_add:
  assumes inv: "psum_inv b" and r: "r < 64 * length (buff b)" and clear: "\<not> bit_at (buff b) r"
  shows "psum_inv (b\<lparr>buff := toggle (buff b) r,
                     psum := psum_add (psum b) (p b \<le> int r div 64) 1\<rparr>)"
proof -
  let ?bf = "toggle (buff b) r"
  from inv have c: "0 \<le> p b" "p b \<le> words b" "int (length (buff b)) = words b"
      "fst (psum b) = int (card {r. bit_at (buff b) r \<and> r < 64 * nat (p b)})"
      "fst (psum b) + snd (psum b) = int (card {r. bit_at (buff b) r})"
    unfolding psum_inv_card by auto
  have all: "{r'. bit_at ?bf r'} = insert r {r'. bit_at (buff b) r'}"
    by (rule bits_toggle_add[OF r clear])
  have call: "card {r'. bit_at ?bf r'} = card {r'. bit_at (buff b) r'} + 1"
    unfolding all using clear finite_bit_at[of "buff b"] by simp
  have low: "{r'. bit_at ?bf r' \<and> r' < 64 * nat (p b)} =
      (if r < 64 * nat (p b) then insert r {r'. bit_at (buff b) r' \<and> r' < 64 * nat (p b)}
       else {r'. bit_at (buff b) r' \<and> r' < 64 * nat (p b)})"
    using r clear by (auto simp: bit_at_toggle)
  have fin: "finite {r'. bit_at (buff b) r' \<and> r' < 64 * nat (p b)}"
    using finite_bit_at[of "buff b"] by simp
  have clow: "card {r'. bit_at ?bf r' \<and> r' < 64 * nat (p b)} =
      card {r'. bit_at (buff b) r' \<and> r' < 64 * nat (p b)} + (if r < 64 * nat (p b) then 1 else 0)"
    unfolding low using clear fin by simp
  let ?b' = "b\<lparr>buff := ?bf, psum := psum_add (psum b) (p b \<le> int r div 64) 1\<rparr>"
  have ps: "fst (psum ?b') = fst (psum b) + (if r < 64 * nat (p b) then 1 else 0)"
    "fst (psum ?b') + snd (psum ?b') = fst (psum b) + snd (psum b) + 1"
    using below_pivot_iff[OF c(1), of r] by (simp_all add: psum_add_def)
  have "0 \<le> p ?b'" "p ?b' \<le> words ?b'" "int (length (buff ?b')) = words ?b'"
    using c(1-3) by simp_all
  moreover have "fst (psum ?b') = int (card {r'. bit_at (buff ?b') r' \<and> r' < 64 * nat (p ?b')})"
    unfolding ps(1) c(4) using clow by simp
  moreover have "fst (psum ?b') + snd (psum ?b') = int (card {r'. bit_at (buff ?b') r'})"
    unfolding ps(2) c(5) using call by simp
  ultimately show ?thesis unfolding psum_inv_card by blast
qed

lemma psum_inv_remove:
  assumes inv: "psum_inv b" and r: "r < 64 * length (buff b)" and set: "bit_at (buff b) r"
  shows "psum_inv (b\<lparr>buff := toggle (buff b) r,
                     psum := psum_add (psum b) (p b \<le> int r div 64) (- 1)\<rparr>)"
proof -
  let ?bf = "toggle (buff b) r"
  from inv have c: "0 \<le> p b" "p b \<le> words b" "int (length (buff b)) = words b"
      "fst (psum b) = int (card {r. bit_at (buff b) r \<and> r < 64 * nat (p b)})"
      "fst (psum b) + snd (psum b) = int (card {r. bit_at (buff b) r})"
    unfolding psum_inv_card by auto
  have all: "{r'. bit_at ?bf r'} = {r'. bit_at (buff b) r'} - {r}"
    by (rule bits_toggle_remove[OF r set])
  have call: "int (card {r'. bit_at ?bf r'}) = int (card {r'. bit_at (buff b) r'}) - 1"
  proof -
    have "card ({r'. bit_at (buff b) r'} - {r}) = card {r'. bit_at (buff b) r'} - 1"
      using set by (intro card_Diff_singleton) simp
    moreover have "card {r'. bit_at (buff b) r'} > 0"
      using set finite_bit_at[of "buff b"] by (auto simp: card_gt_0_iff)
    ultimately show ?thesis unfolding all by simp
  qed
  have low: "{r'. bit_at ?bf r' \<and> r' < 64 * nat (p b)} =
      {r'. bit_at (buff b) r' \<and> r' < 64 * nat (p b)} - {r}"
    using r set by (auto simp: bit_at_toggle)
  have fin: "finite {r'. bit_at (buff b) r' \<and> r' < 64 * nat (p b)}"
    using finite_bit_at[of "buff b"] by simp
  have clow: "int (card {r'. bit_at ?bf r' \<and> r' < 64 * nat (p b)}) =
      int (card {r'. bit_at (buff b) r' \<and> r' < 64 * nat (p b)}) - (if r < 64 * nat (p b) then 1 else 0)"
  proof (cases "r < 64 * nat (p b)")
    case True
    then have mem: "r \<in> {r'. bit_at (buff b) r' \<and> r' < 64 * nat (p b)}" using set by simp
    then have "card ({r'. bit_at (buff b) r' \<and> r' < 64 * nat (p b)} - {r}) =
        card {r'. bit_at (buff b) r' \<and> r' < 64 * nat (p b)} - 1"
      by (intro card_Diff_singleton)
    moreover have "card {r'. bit_at (buff b) r' \<and> r' < 64 * nat (p b)} > 0"
      using mem fin by (auto simp: card_gt_0_iff)
    ultimately show ?thesis unfolding low using True by simp
  next
    case False
    then have "{r'. bit_at (buff b) r' \<and> r' < 64 * nat (p b)} - {r} =
        {r'. bit_at (buff b) r' \<and> r' < 64 * nat (p b)}" by auto
    then show ?thesis unfolding low using False by simp
  qed
  let ?b' = "b\<lparr>buff := ?bf, psum := psum_add (psum b) (p b \<le> int r div 64) (- 1)\<rparr>"
  have ps: "fst (psum ?b') = fst (psum b) - (if r < 64 * nat (p b) then 1 else 0)"
    "fst (psum ?b') + snd (psum ?b') = fst (psum b) + snd (psum b) - 1"
    using below_pivot_iff[OF c(1), of r] by (simp_all add: psum_add_def)
  have "0 \<le> p ?b'" "p ?b' \<le> words ?b'" "int (length (buff ?b')) = words ?b'"
    using c(1-3) by simp_all
  moreover have "fst (psum ?b') = int (card {r'. bit_at (buff ?b') r' \<and> r' < 64 * nat (p ?b')})"
    unfolding ps(1) c(4) using clow by simp
  moreover have "fst (psum ?b') + snd (psum ?b') = int (card {r'. bit_at (buff ?b') r'})"
    unfolding ps(2) c(5) using call by simp
  ultimately show ?thesis unfolding psum_inv_card by blast
qed

subsection \<open>\<open>search\<close>\<close>

lemma word_prefix_card:
  assumes "n < length bf" "j \<le> 64"
  shows "card {r. bit_at bf r \<and> 64 * n \<le> r \<and> r < 64 * n + j} = card {i. i < j \<and> bit (bf ! n) i}"
proof -
  have "{r. bit_at bf r \<and> 64 * n \<le> r \<and> r < 64 * n + j} = (\<lambda>i. 64 * n + i) ` {i. i < j \<and> bit (bf ! n) i}"
  proof (intro set_eqI iffI)
    fix r assume "r \<in> {r. bit_at bf r \<and> 64 * n \<le> r \<and> r < 64 * n + j}"
    then have r: "bit_at bf r" "64 * n \<le> r" "r < 64 * n + j" by auto
    then have d: "r div 64 = n" using assms(2) by auto
    have m: "r = 64 * n + r mod 64" using d by (metis mult_div_mod_eq)
    from r(1) d have "bit (bf ! n) (r mod 64)" by (simp add: bit_at_def)
    moreover have "r mod 64 < j" using m r(3) by linarith
    ultimately show "r \<in> (\<lambda>i. 64 * n + i) ` {i. i < j \<and> bit (bf ! n) i}" using m by blast
  next
    fix r assume "r \<in> (\<lambda>i. 64 * n + i) ` {i. i < j \<and> bit (bf ! n) i}"
    then obtain i where i: "r = 64 * n + i" "bit (bf ! n) i" "i < j" by auto
    then have "i < 64" by (auto dest: bit_u64_less)
    then show "r \<in> {r. bit_at bf r \<and> 64 * n \<le> r \<and> r < 64 * n + j}"
      using i assms by (auto simp: bit_at_def)
  qed
  moreover have "inj_on (\<lambda>i. 64 * n + i) {i. i < j \<and> bit (bf ! n) i}" by (auto simp: inj_on_def)
  ultimately show ?thesis by (simp add: card_image)
qed

lemma card_below_in_word:
  assumes "n < length bf" "j \<le> 64"
  shows "card {r. bit_at bf r \<and> r < 64 * n + j} =
         card {r. bit_at bf r \<and> r < 64 * n} + card {i. i < j \<and> bit (bf ! n) i}"
proof -
  let ?A = "{r. bit_at bf r \<and> r < 64 * n}"
  let ?B = "{r. bit_at bf r \<and> 64 * n \<le> r \<and> r < 64 * n + j}"
  have un: "{r. bit_at bf r \<and> r < 64 * n + j} = ?A \<union> ?B" by auto
  have disj: "?A \<inter> ?B = {}" by auto
  have fin: "finite ?A" "finite ?B" using finite_bit_at[of bf] by simp_all
  show ?thesis
    unfolding un card_Un_disjoint[OF fin disj] word_prefix_card[OF assms] ..
qed

lemma nth_of_card_below:
  fixes xs :: "nat list"
  assumes "sorted xs" "distinct xs" "r \<in> set xs" "card {i \<in> set xs. i < r} = k"
  shows "k < length xs \<and> xs ! k = r"
proof -
  from assms(3) obtain m where m: "m < length xs" "xs ! m = r"
    by (auto simp: in_set_conv_nth)
  from card_below_nth[OF assms(1,2) m(1)] m(2) assms(4) have "m = k" by simp
  with m show ?thesis by simp
qed

lemma set_ranks_nth:
  assumes "bit_at bf r" "card {r'. bit_at bf r' \<and> r' < r} = k"
  shows "k < length (set_ranks bf) \<and> set_ranks bf ! k = r"
proof -
  have "{i \<in> set (set_ranks bf). i < r} = {r'. bit_at bf r' \<and> r' < r}"
    by (auto simp: set_set_ranks)
  with assms show ?thesis
    by (intro nth_of_card_below sorted_set_ranks distinct_set_ranks) (simp_all add: set_set_ranks)
qed

lemma pop_in: "0 \<le> i \<Longrightarrow> i < int (length (buff b)) \<Longrightarrow> pop b i = Some (popcountll (buff b ! nat i))"
  by (simp add: pop_def rd_def)

lemma search_down_correct:
  assumes "psum_inv b" "0 \<le> target"
  shows "\<exists>b'. search_down b target = Some b' \<and> psum_inv b' \<and>
              b' = b\<lparr>p := p b', psum := psum b'\<rparr> \<and> fst (psum b') \<le> target"
  using assms
proof (induction b target rule: search_down.induct)
  case (1 b target)
  show ?case
  proof (cases "fst (psum b) > target")
    case False
    then have "search_down b target = Some b" by (simp add: search_down.simps[of b])
    with False "1.prems" show ?thesis by (intro exI[of _ b]) simp
  next
    case True
    from "1.prems"(1) have inv: "0 \<le> p b" "p b \<le> words b" "int (length (buff b)) = words b"
        "fst (psum b) = sum_list (map popcountll (take (nat (p b)) (buff b)))"
        "fst (psum b) + snd (psum b) = sum_list (map popcountll (buff b))"
      by (auto simp: psum_inv_def)
    have ppos: "0 < p b"
    proof (rule ccontr)
      assume "\<not> 0 < p b"
      with inv(1) have "p b = 0" by simp
      with inv(4) have "fst (psum b) = 0" by simp
      with True "1.prems"(2) show False by simp
    qed
    let ?c = "popcountll (buff b ! nat (p b - 1))"
    let ?b1 = "b\<lparr>p := p b - 1, psum := (fst (psum b) - ?c, snd (psum b) + ?c)\<rparr>"
    have popv: "pop b (p b - 1) = Some ?c" using ppos inv(2,3) by (simp add: pop_in)
    have tk: "take (nat (p b)) (buff b) = take (nat (p b - 1)) (buff b) @ [buff b ! nat (p b - 1)]"
    proof -
      have "nat (p b) = Suc (nat (p b - 1))" using ppos by simp
      moreover have "nat (p b - 1) < length (buff b)" using ppos inv(2,3) by linarith
      ultimately show ?thesis by (simp add: take_Suc_conv_app_nth)
    qed
    have inv1: "psum_inv ?b1"
      unfolding psum_inv_def using inv ppos tk by simp
    from "1.IH"[OF True popv inv1 "1.prems"(2)] obtain b' where
      b': "search_down ?b1 target = Some b'" "psum_inv b'"
          "b' = ?b1\<lparr>p := p b', psum := psum b'\<rparr>" "fst (psum b') \<le> target"
      by blast
    have "search_down b target = Some b'"
      using True popv b'(1) by (simp add: search_down.simps[of b])
    moreover have "b' = b\<lparr>p := p b', psum := psum b'\<rparr>"
      using b'(3) by simp
    ultimately show ?thesis using b'(2,4) by blast
  qed
qed

lemma search_up_correct:
  assumes "psum_inv b" "fst (psum b) \<le> target" "target < fst (psum b) + snd (psum b)"
  shows "\<exists>b'. search_up b target = Some b' \<and> psum_inv b' \<and>
              b' = b\<lparr>p := p b', psum := psum b'\<rparr> \<and> fst (psum b') \<le> target \<and>
              p b' < words b' \<and> target < fst (psum b') + popcountll (buff b' ! nat (p b'))"
  using assms
proof (induction b target rule: search_up.induct)
  case (1 b target)
  from "1.prems"(1) have inv: "0 \<le> p b" "p b \<le> words b" "int (length (buff b)) = words b"
      "fst (psum b) = sum_list (map popcountll (take (nat (p b)) (buff b)))"
      "fst (psum b) + snd (psum b) = sum_list (map popcountll (buff b))"
    by (auto simp: psum_inv_def)
  have plt: "p b < words b"
  proof (rule ccontr)
    assume "\<not> p b < words b"
    with inv(2,3) have "nat (p b) = length (buff b)" by linarith
    with inv(4,5) have "fst (psum b) = fst (psum b) + snd (psum b)" by simp
    with "1.prems"(2,3) show False by simp
  qed
  let ?c = "popcountll (buff b ! nat (p b))"
  have popv: "pop b (p b) = Some ?c" using plt inv(1,3) by (simp add: pop_in)
  show ?case
  proof (cases "fst (psum b) + ?c \<le> target")
    case False
    then have "search_up b target = Some b" using popv by (simp add: search_up.simps[of b])
    with False "1.prems" plt show ?thesis by (intro exI[of _ b]) simp
  next
    case True
    let ?b1 = "b\<lparr>psum := (fst (psum b) + ?c, snd (psum b) - ?c), p := p b + 1\<rparr>"
    have tk: "take (nat (p b + 1)) (buff b) = take (nat (p b)) (buff b) @ [buff b ! nat (p b)]"
    proof -
      have "nat (p b + 1) = Suc (nat (p b))" using inv(1) by simp
      moreover have "nat (p b) < length (buff b)" using plt inv(1,3) by linarith
      ultimately show ?thesis by (simp add: take_Suc_conv_app_nth)
    qed
    have inv1: "psum_inv ?b1"
      unfolding psum_inv_def using inv plt tk by simp
    have pre: "fst (psum ?b1) \<le> target" "target < fst (psum ?b1) + snd (psum ?b1)"
      using True "1.prems"(3) by simp_all
    from "1.IH"[OF popv True inv1 pre] obtain b' where
      b': "search_up ?b1 target = Some b'" "psum_inv b'"
          "b' = ?b1\<lparr>p := p b', psum := psum b'\<rparr>" "fst (psum b') \<le> target"
          "p b' < words b'" "target < fst (psum b') + popcountll (buff b' ! nat (p b'))"
      by blast
    have "search_up b target = Some b'"
      using True popv b'(1) by (simp add: search_up.simps[of b])
    moreover have "b' = b\<lparr>p := p b', psum := psum b'\<rparr>"
      using b'(3) by simp
    ultimately show ?thesis using b'(2,4,5,6) by blast
  qed
qed

lemma search_correct:
  assumes inv: "psum_inv b" and k: "0 \<le> k" "k < fst (psum b) + snd (psum b)"
  shows "\<exists>b'. search b k = Some (int (set_ranks (buff b) ! nat k), b') \<and> psum_inv b' \<and>
              b' = b\<lparr>p := p b', psum := psum b'\<rparr> \<and> nat k < length (set_ranks (buff b))"
proof -
  from search_down_correct[OF inv k(1)] obtain b1 where
    b1: "search_down b k = Some b1" "psum_inv b1" "b1 = b\<lparr>p := p b1, psum := psum b1\<rparr>"
        "fst (psum b1) \<le> k"
    by blast
  have bf1: "buff b1 = buff b" by (subst b1(3)) simp
  have tot1: "fst (psum b1) + snd (psum b1) = fst (psum b) + snd (psum b)"
    using b1(2) inv bf1 by (simp add: psum_inv_def)
  from search_up_correct[OF b1(2) b1(4)] k(2) tot1 obtain b2 where
    b2: "search_up b1 k = Some b2" "psum_inv b2" "b2 = b1\<lparr>p := p b2, psum := psum b2\<rparr>"
        "fst (psum b2) \<le> k" "p b2 < words b2"
        "k < fst (psum b2) + popcountll (buff b2 ! nat (p b2))"
    by auto
  have bf2: "buff b2 = buff b" using bf1 by (subst b2(3)) simp
  have fr: "b2 = b\<lparr>p := p b2, psum := psum b2\<rparr>"
    by (subst b2(3), subst b1(3)) simp
  from b2(2) have c: "0 \<le> p b2" "int (length (buff b2)) = words b2"
      "fst (psum b2) = int (card {r. bit_at (buff b2) r \<and> r < 64 * nat (p b2)})"
    unfolding psum_inv_card by auto
  let ?w = "buff b ! nat (p b2)"
  let ?n = "k - fst (psum b2)"
  have pl: "nat (p b2) < length (buff b)" using c(1,2) b2(5) unfolding bf2 by linarith
  have rdw: "rd (buff b2) (p b2) = Some ?w" using c(1,2) b2(5) bf2 by (simp add: rd_def)
  have n0: "0 \<le> ?n" using b2(4) by simp
  have npop: "int (nat ?n) < popcountll ?w" using b2(6) n0 bf2 by simp
  have n64: "?n < 64" using npop popcountll_le[of ?w] by linarith
  from select_word[OF npop] obtain j where
    j: "ctzll (pdep_u64 (push_bit (nat ?n) 1) ?w) = Some (int j)" "j < 64" "bit ?w j"
       "card {i. i < j \<and> bit ?w i} = nat ?n"
    by blast
  let ?r = "64 * nat (p b2) + j"
  have res: "push_bit 6 (p b2) OR int j = int ?r"
    using push_bit_6_or[of "int j" "p b2"] j(2) c(1) by simp
  have run: "search b k = Some (int ?r, b2)"
    unfolding search_def using b1(1) b2(1) rdw n0 n64 j(1) res by (simp add: Let_def)
  have bitr: "bit_at (buff b) ?r" using pl j(2,3) by (simp add: bit_at_def)
  have "card {r'. bit_at (buff b) r' \<and> r' < ?r} =
        card {r. bit_at (buff b) r \<and> r < 64 * nat (p b2)} + card {i. i < j \<and> bit ?w i}"
    using card_below_in_word[OF pl, of j] j(2) by simp
  then have cardr: "card {r'. bit_at (buff b) r' \<and> r' < ?r} = nat k"
    using c(3) j(4) bf2 n0 k(1) by (simp add: nat_diff_distrib)
  from set_ranks_nth[OF bitr cardr] have "nat k < length (set_ranks (buff b))"
    "set_ranks (buff b) ! nat k = ?r" by simp_all
  with run b2(2) fr show ?thesis by simp
qed

subsection \<open>The bookkeeping invariant along the operations\<close>

lemma popcountll_zero [simp]: "popcountll 0 = 0"
  by (simp add: popcountll_card)

lemma sum_popcount_zeros: "sum_list (map popcountll (take k (replicate n 0))) = 0"
  by (simp add: sum_list_replicate)

lemma Block_new_unfold:
  "Block_new srt nyv nxv hyv hxv inp x0iv y0iv x1iv y1iv =
     (if (min (x1iv + hxv) (nxv - 1) - max (x0iv - hxv) 0 + 1) *
         (min (y1iv + hyv) (nyv - 1) - max (y0iv - hyv) 0 + 1) < 0 then None
      else Option.bind
        (fill_sorted inp nxv (max (x0iv - hxv) 0) (max (y0iv - hyv) 0)
           (min (x1iv + hxv) (nxv - 1) - max (x0iv - hxv) 0 + 1)
           (min (y1iv + hyv) (nyv - 1) - max (y0iv - hyv) 0 + 1)
           (replicate (nat ((min (x1iv + hxv) (nxv - 1) - max (x0iv - hxv) 0 + 1) *
                            (min (y1iv + hyv) (nyv - 1) - max (y0iv - hyv) 0 + 1))) (0, 0)))
        (\<lambda>s. Option.bind
           (fill_ranks (srt s)
              ((min (x1iv + hxv) (nxv - 1) - max (x0iv - hxv) 0 + 1) *
               (min (y1iv + hyv) (nyv - 1) - max (y0iv - hyv) 0 + 1))
              (replicate (nat ((min (x1iv + hxv) (nxv - 1) - max (x0iv - hxv) 0 + 1) *
                               (min (y1iv + hyv) (nyv - 1) - max (y0iv - hyv) 0 + 1))) 0))
          (\<lambda>r. Some \<lparr> nx = nxv, ny = nyv,
                  bx = min (x1iv + hxv) (nxv - 1) - max (x0iv - hxv) 0 + 1,
                  by' = min (y1iv + hyv) (nyv - 1) - max (y0iv - hyv) 0 + 1, hy = hyv, hx = hxv,
                  x0b = max (x0iv - hxv) 0, x1b = min (x1iv + hxv) (nxv - 1),
                  y0b = max (y0iv - hyv) 0, y1b = min (y1iv + hyv) (nyv - 1),
                  x0i = x0iv, y0i = y0iv, x1i = x1iv, y1i = y1iv,
                  x0 = x0iv - max (x0iv - hxv) 0, y0 = y0iv - max (y0iv - hyv) 0,
                  x1 = x1iv - max (x0iv - hxv) 0, y1 = y1iv - max (y0iv - hyv) 0,
                  words = ((min (x1iv + hxv) (nxv - 1) - max (x0iv - hxv) 0 + 1) *
                           (min (y1iv + hyv) (nyv - 1) - max (y0iv - hyv) 0 + 1) + 63) sdiv 64,
                  p = (((min (x1iv + hxv) (nxv - 1) - max (x0iv - hxv) 0 + 1) *
                        (min (y1iv + hyv) (nyv - 1) - max (y0iv - hyv) 0 + 1) + 63) sdiv 64) sdiv 2,
                  psum = (0, 0),
                  sorted' = srt s, ranks = r,
                  buff = replicate (nat (((min (x1iv + hxv) (nxv - 1) - max (x0iv - hxv) 0 + 1) *
                           (min (y1iv + hyv) (nyv - 1) - max (y0iv - hyv) 0 + 1) + 63) sdiv 64)) 0 \<rparr>)))"
  unfolding Block_new_def Let_def ..

lemma Block_new_cases:
  assumes "Block_new srt nyv nxv hyv hxv inp x0iv y0iv x1iv y1iv = Some b"
  obtains s r X0 Y0 X1 Y1 N W where
    "X0 = max (x0iv - hxv) 0" "Y0 = max (y0iv - hyv) 0"
    "X1 = min (x1iv + hxv) (nxv - 1)" "Y1 = min (y1iv + hyv) (nyv - 1)"
    "N = (X1 - X0 + 1) * (Y1 - Y0 + 1)" "W = (N + 63) div 64" "0 \<le> N"
    "fill_sorted inp nxv X0 Y0 (X1 - X0 + 1) (Y1 - Y0 + 1) (replicate (nat N) (0, 0)) = Some s"
    "fill_ranks (srt s) N (replicate (nat N) 0) = Some r"
    "b = \<lparr> nx = nxv, ny = nyv, bx = X1 - X0 + 1, by' = Y1 - Y0 + 1, hy = hyv, hx = hxv,
                  x0b = X0, x1b = X1, y0b = Y0, y1b = Y1,
                  x0i = x0iv, y0i = y0iv, x1i = x1iv, y1i = y1iv,
                  x0 = x0iv - X0, y0 = y0iv - Y0, x1 = x1iv - X0, y1 = y1iv - Y0,
                  words = W, p = W div 2, psum = (0, 0),
                  sorted' = srt s, ranks = r, buff = replicate (nat W) 0 \<rparr>"
proof -
  define X0 where "X0 = max (x0iv - hxv) 0"
  define Y0 where "Y0 = max (y0iv - hyv) 0"
  define X1 where "X1 = min (x1iv + hxv) (nxv - 1)"
  define Y1 where "Y1 = min (y1iv + hyv) (nyv - 1)"
  define N where "N = (X1 - X0 + 1) * (Y1 - Y0 + 1)"
  define W where "W = (N + 63) div 64"
  note eq = Block_new_unfold[of srt nyv nxv hyv hxv inp x0iv y0iv x1iv y1iv,
      folded X0_def Y0_def X1_def Y1_def, folded N_def]
  from assms have n0: "0 \<le> N" unfolding eq by (simp split: if_splits)
  have w: "(N + 63) sdiv 64 = W" unfolding W_def using n0 by (simp add: sdiv_nonneg)
  have w0: "0 \<le> W" unfolding W_def using n0 by simp
  have w2: "W sdiv 2 = W div 2" using w0 by (simp add: sdiv_nonneg)
  from assms n0 obtain s r where
    "fill_sorted inp nxv X0 Y0 (X1 - X0 + 1) (Y1 - Y0 + 1) (replicate (nat N) (0, 0)) = Some s"
    "fill_ranks (srt s) N (replicate (nat N) 0) = Some r"
    "b = \<lparr> nx = nxv, ny = nyv, bx = X1 - X0 + 1, by' = Y1 - Y0 + 1, hy = hyv, hx = hxv,
                  x0b = X0, x1b = X1, y0b = Y0, y1b = Y1,
                  x0i = x0iv, y0i = y0iv, x1i = x1iv, y1i = y1iv,
                  x0 = x0iv - X0, y0 = y0iv - Y0, x1 = x1iv - X0, y1 = y1iv - Y0,
                  words = W, p = W div 2, psum = (0, 0),
                  sorted' = srt s, ranks = r, buff = replicate (nat W) 0 \<rparr>"
    unfolding eq w w2 by (auto simp: Option.bind_eq_Some_conv)
  then show thesis using that[OF X0_def Y0_def X1_def Y1_def N_def W_def n0] by blast
qed

lemma Block_new_fields:
  assumes "Block_new srt nyv nxv hyv hxv inp x0iv y0iv x1iv y1iv = Some b"
  shows "0 \<le> bx b * by' b"
    and "words b = (bx b * by' b + 63) div 64"
    and "p b = words b div 2"
    and "psum b = (0, 0)"
    and "buff b = replicate (nat (words b)) 0"
    and "nx b = nxv \<and> ny b = nyv \<and> hy b = hyv \<and> hx b = hxv"
    and "x0b b = max (x0iv - hxv) 0 \<and> y0b b = max (y0iv - hyv) 0"
    and "x1b b = min (x1iv + hxv) (nxv - 1) \<and> y1b b = min (y1iv + hyv) (nyv - 1)"
    and "bx b = x1b b - x0b b + 1 \<and> by' b = y1b b - y0b b + 1"
    and "x0 b = x0iv - x0b b \<and> y0 b = y0iv - y0b b \<and> x1 b = x1iv - x0b b \<and> y1 b = y1iv - y0b b"
    and "x0i b = x0iv \<and> y0i b = y0iv \<and> x1i b = x1iv \<and> y1i b = y1iv"
proof -
  from assms obtain s r X0 Y0 X1 Y1 N W where
    d: "X0 = max (x0iv - hxv) 0" "Y0 = max (y0iv - hyv) 0"
    "X1 = min (x1iv + hxv) (nxv - 1)" "Y1 = min (y1iv + hyv) (nyv - 1)"
    "N = (X1 - X0 + 1) * (Y1 - Y0 + 1)" "W = (N + 63) div 64" "0 \<le> N" and
    b: "b = \<lparr> nx = nxv, ny = nyv, bx = X1 - X0 + 1, by' = Y1 - Y0 + 1, hy = hyv, hx = hxv,
                  x0b = X0, x1b = X1, y0b = Y0, y1b = Y1,
                  x0i = x0iv, y0i = y0iv, x1i = x1iv, y1i = y1iv,
                  x0 = x0iv - X0, y0 = y0iv - Y0, x1 = x1iv - X0, y1 = y1iv - Y0,
                  words = W, p = W div 2, psum = (0, 0),
                  sorted' = srt s, ranks = r, buff = replicate (nat W) 0 \<rparr>"
    by (rule Block_new_cases)
  show "0 \<le> bx b * by' b" using d(7) by (simp add: b d(5))
  show "words b = (bx b * by' b + 63) div 64" by (simp add: b d(5,6))
  show "p b = words b div 2" by (simp add: b)
  show "psum b = (0, 0)" by (simp add: b)
  show "buff b = replicate (nat (words b)) 0" by (simp add: b)
  show "nx b = nxv \<and> ny b = nyv \<and> hy b = hyv \<and> hx b = hxv" by (simp add: b)
  show "x0b b = max (x0iv - hxv) 0 \<and> y0b b = max (y0iv - hyv) 0" by (simp add: b d(1,2))
  show "x1b b = min (x1iv + hxv) (nxv - 1) \<and> y1b b = min (y1iv + hyv) (nyv - 1)"
    by (simp add: b d(3,4))
  show "bx b = x1b b - x0b b + 1 \<and> by' b = y1b b - y0b b + 1" by (simp add: b)
  show "x0 b = x0iv - x0b b \<and> y0 b = y0iv - y0b b \<and> x1 b = x1iv - x0b b \<and> y1 b = y1iv - y0b b"
    by (simp add: b)
  show "x0i b = x0iv \<and> y0i b = y0iv \<and> x1i b = x1iv \<and> y1i b = y1iv" by (simp add: b)
qed

lemma Block_new_psum_inv:
  assumes "Block_new srt nyv nxv hyv hxv inp x0iv y0iv x1iv y1iv = Some b"
  shows "psum_inv b"
proof -
  note f = Block_new_fields[OF assms]
  have w0: "0 \<le> words b" unfolding f(2) using f(1) by simp
  then have "0 \<le> p b" "p b \<le> words b" unfolding f(3) by simp_all
  moreover have "int (length (buff b)) = words b" using w0 by (simp add: f(5))
  moreover have "sum_list (map popcountll (take (nat (p b)) (buff b))) = 0"
    unfolding f(5) by (rule sum_popcount_zeros)
  moreover have "sum_list (map popcountll (buff b)) = 0"
    unfolding f(5) by (simp add: sum_list_replicate)
  ultimately show ?thesis unfolding psum_inv_def by (simp add: f(4))
qed

lemma add_rank_psum_inv:
  assumes "psum_inv b" "in_tile b ix jy \<longrightarrow> rank_ok b ix jy \<and> \<not> cell_bit b ix jy"
  shows "\<exists>b'. add_rank b ix jy = Some b' \<and> psum_inv b'"
proof (cases "in_tile b ix jy")
  case False
  then have "add_rank b ix jy = Some b" by (intro rank_outside) (auto simp: in_tile_def)
  with assms(1) show ?thesis by simp
next
  case True
  let ?r = "ranks b ! nat (jy * bx b + ix)"
  from True assms(2) have ok: "rank_ok b ix jy" "\<not> bit_at (buff b) (nat ?r)"
    by (simp_all add: cell_bit_def)
  from True have t: "0 \<le> ix" "ix < bx b" "0 \<le> jy" "jy < by' b" by (simp_all add: in_tile_def)
  from ok(1) have r: "jy * bx b + ix < int (length (ranks b))" "0 \<le> ?r"
      "?r < 64 * int (length (buff b))" by (simp_all add: rank_ok_def)
  have rn: "nat ?r < 64 * length (buff b)" using r(2,3) by linarith
  have idx: "int (nat ?r) div 64 = ?r div 64" using r(2) by simp
  from psum_inv_add[OF assms(1) rn ok(2)] toggle_step(1)[OF t r]
  show ?thesis unfolding idx by simp
qed

lemma remove_rank_psum_inv:
  assumes "psum_inv b" "in_tile b ix jy \<longrightarrow> rank_ok b ix jy \<and> cell_bit b ix jy"
  shows "\<exists>b'. remove_rank b ix jy = Some b' \<and> psum_inv b'"
proof (cases "in_tile b ix jy")
  case False
  then have "remove_rank b ix jy = Some b" by (intro rank_outside) (auto simp: in_tile_def)
  with assms(1) show ?thesis by simp
next
  case True
  let ?r = "ranks b ! nat (jy * bx b + ix)"
  from True assms(2) have ok: "rank_ok b ix jy" "bit_at (buff b) (nat ?r)"
    by (simp_all add: cell_bit_def)
  from True have t: "0 \<le> ix" "ix < bx b" "0 \<le> jy" "jy < by' b" by (simp_all add: in_tile_def)
  from ok(1) have r: "jy * bx b + ix < int (length (ranks b))" "0 \<le> ?r"
      "?r < 64 * int (length (buff b))" by (simp_all add: rank_ok_def)
  have rn: "nat ?r < 64 * length (buff b)" using r(2,3) by linarith
  have idx: "int (nat ?r) div 64 = ?r div 64" using r(2) by simp
  from psum_inv_remove[OF assms(1) rn ok(2)] toggle_step(2)[OF t r]
  show ?thesis unfolding idx by simp
qed

lemma filter_less_set_ranks:
  assumes "k < length (set_ranks bf)"
  shows "length (filter (\<lambda>i. i < set_ranks bf ! k) (set_ranks bf)) = k"
proof -
  let ?xs = "set_ranks bf"
  have "length (filter (\<lambda>i. i < ?xs ! k) ?xs) = card (set (filter (\<lambda>i. i < ?xs ! k) ?xs))"
    by (rule distinct_card[symmetric]) (simp add: distinct_set_ranks)
  also have "set (filter (\<lambda>i. i < ?xs ! k) ?xs) = {i \<in> set ?xs. i < ?xs ! k}" by auto
  also have "card \<dots> = k"
    by (rule card_below_nth[OF sorted_set_ranks distinct_set_ranks assms])
  finally show ?thesis .
qed

subsection \<open>Index ranges\<close>

lemma upto_split:
  assumes "[lo..hi] = ys @ i # zs"
  shows "i = lo + int (length ys)" and "lo + int (length ys) \<le> hi"
    and "ys = [lo..i - 1]" and "zs = [i + 1..hi]"
proof -
  have len: "length ys < length [lo..hi]" unfolding assms by simp
  then have le: "lo + int (length ys) \<le> hi" by simp
  have "[lo..hi] ! length ys = i" unfolding assms by simp
  with le show i: "i = lo + int (length ys)" by (simp add: nth_upto)
  show "lo + int (length ys) \<le> hi" by (rule le)
  have mem: "lo \<le> i" "i \<le> hi" using i le by simp_all
  have "[lo..hi] = [lo..i - 1] @ i # [i + 1..hi]"
    using mem by (rule upto_split3)
  with assms have eq: "ys @ i # zs = [lo..i - 1] @ i # [i + 1..hi]" by simp
  have "length ys = length [lo..i - 1]" using i by simp
  with eq show "ys = [lo..i - 1]" "zs = [i + 1..hi]" by simp_all
qed

lemma idx_in_range:
  fixes y x h w :: int
  assumes "0 \<le> y" "y < h" "0 \<le> x" "x < w"
  shows "0 \<le> y * w + x" and "y * w + x < h * w"
proof -
  have w: "0 < w" using assms by simp
  show "0 \<le> y * w + x" using assms by simp
  have "y + 1 \<le> h" using assms by simp
  then have "(y + 1) * w \<le> h * w" using w by (intro mult_right_mono) simp_all
  then show "y * w + x < h * w" using assms by (simp add: algebra_simps)
qed

lemma div_mod_cell:
  fixes dy dx w :: int
  assumes "0 \<le> dx" "dx < w"
  shows "(dy * w + dx) div w = dy" and "(dy * w + dx) mod w = dx"
  using assms by simp_all

subsection \<open>Filling the tables of a block\<close>

lemma fill_sorted_correct:
  assumes hbx: "0 < bxv" and hby: "0 \<le> byv"
    and len: "length s0 = nat (bxv * byv)"
    and rd: "\<And>dy dx. 0 \<le> dy \<Longrightarrow> dy < byv \<Longrightarrow> 0 \<le> dx \<Longrightarrow> dx < bxv \<Longrightarrow>
                0 \<le> (y0bv + dy) * nxv + (x0bv + dx) \<and>
                (y0bv + dy) * nxv + (x0bv + dx) < int (length inp)"
  shows "fill_sorted inp nxv x0bv y0bv bxv byv s0 = Some (tile_pairs inp nxv x0bv y0bv bxv byv)"
proof -
  let ?N = "nat (bxv * byv)"
  let ?pair = "\<lambda>k. (tile_val inp nxv x0bv y0bv bxv k, int k)"
  define P where "P m s \<longleftrightarrow> length s = ?N \<and> (\<forall>k<m. s ! k = ?pair k)" for m and s :: "(real \<times> int) list"
  let ?inner = "\<lambda>dy. for_each (\<lambda>dx s. do {
         v \<leftarrow> rd inp ((y0bv + dy) * nxv + (x0bv + dx));
         wr s (dy * bxv + dx) (v, dy * bxv + dx) }) [0 .. bxv - 1]"
  have inner: "\<exists>s'. ?inner dy s = Some s' \<and> P (nat ((dy + 1) * bxv)) s'"
    if dy: "0 \<le> dy" "dy < byv" and s: "P (nat (dy * bxv)) s" for dy s
  proof -
    have "\<exists>s'. ?inner dy s = Some s' \<and> P (nat (dy * bxv) + length [0 .. bxv - 1]) s'"
    proof (rule for_each_rule[where I = "\<lambda>ys s. P (nat (dy * bxv) + length ys) s"])
      show "P (nat (dy * bxv) + length ([] :: int list)) s" using s by simp
    next
      fix ys dx zs and t :: "(real \<times> int) list"
      assume sp: "[0..bxv - 1] = ys @ dx # zs" and t: "P (nat (dy * bxv) + length ys) t"
      from upto_split(1,2)[OF sp] have dx: "dx = int (length ys)" "0 \<le> dx" "dx < bxv" by simp_all
      let ?m = "nat (dy * bxv) + length ys"
      have m: "int ?m = dy * bxv + dx" using dy(1) hbx dx by simp
      have mN: "dy * bxv + dx < bxv * byv"
        using idx_in_range(2)[OF dy dx(2,3)] by (simp add: mult.commute)
      have m0: "0 \<le> dy * bxv + dx" using idx_in_range(1)[OF dy dx(2,3)] .
      from rd[OF dy dx(2,3)] have r: "rd inp ((y0bv + dy) * nxv + (x0bv + dx)) =
          Some (inp ! nat ((y0bv + dy) * nxv + (x0bv + dx)))" by (simp add: rd_def)
      have tv: "inp ! nat ((y0bv + dy) * nxv + (x0bv + dx)) = tile_val inp nxv x0bv y0bv bxv ?m"
        unfolding tile_val_def m using div_mod_cell[OF dx(2,3), of dy] by simp
      from t have lt: "length t = ?N" and tk: "\<And>k. k < ?m \<Longrightarrow> t ! k = ?pair k"
        by (simp_all add: P_def)
      have nm: "nat (dy * bxv + dx) = ?m" using m by linarith
      have "dy * bxv + dx < int (length t)" using mN lt by simp
      then have w: "wr t (dy * bxv + dx) v = Some (t[?m := v])" for v
        using m0 by (simp add: wr_def nm)
      have mlt: "?m < length t" using mN lt m by linarith
      have "P (?m + 1) (t[?m := ?pair ?m])"
        unfolding P_def
      proof (intro conjI allI impI)
        show "length (t[?m := ?pair ?m]) = ?N" using lt by simp
      next
        fix k assume "k < ?m + 1"
        then show "t[?m := ?pair ?m] ! k = ?pair k"
          using tk[of k] mlt by (cases "k = ?m") simp_all
      qed
      moreover have "nat (dy * bxv) + length (ys @ [dx]) = ?m + 1" by simp
      ultimately show "\<exists>s'. (do {
                v \<leftarrow> rd inp ((y0bv + dy) * nxv + (x0bv + dx));
                wr t (dy * bxv + dx) (v, dy * bxv + dx) }) = Some s' \<and>
           P (nat (dy * bxv) + length (ys @ [dx])) s'"
        using r w tv m by simp
    qed
    moreover have "nat (dy * bxv) + length [0 .. bxv - 1] = nat ((dy + 1) * bxv)"
      using dy(1) hbx by (simp add: algebra_simps nat_add_distrib)
    ultimately show ?thesis by simp
  qed
  have "\<exists>s'. for_each ?inner [0 .. byv - 1] s0 = Some s' \<and> P (nat (int (length [0 .. byv - 1]) * bxv)) s'"
  proof (rule for_each_rule[where I = "\<lambda>ys s. P (nat (int (length ys) * bxv)) s"])
    show "P (nat (int (length ([] :: int list)) * bxv)) s0" using len by (simp add: P_def)
  next
    fix ys dy zs and t :: "(real \<times> int) list"
    assume sp: "[0..byv - 1] = ys @ dy # zs" and t: "P (nat (int (length ys) * bxv)) t"
    from upto_split(1,2)[OF sp] have dy: "dy = int (length ys)" "0 \<le> dy" "dy < byv" by simp_all
    from inner[OF dy(2,3)] t dy(1) obtain s' where
      "?inner dy t = Some s'" "P (nat ((dy + 1) * bxv)) s'" by auto
    moreover have "nat (int (length (ys @ [dy])) * bxv) = nat ((dy + 1) * bxv)"
      using dy(1) by (simp add: add.commute)
    ultimately show "\<exists>s'. ?inner dy t = Some s' \<and> P (nat (int (length (ys @ [dy])) * bxv)) s'"
      by metis
  qed
  then obtain s' where s': "fill_sorted inp nxv x0bv y0bv bxv byv s0 = Some s'"
      "P (nat (int (length [0 .. byv - 1]) * bxv)) s'"
    unfolding fill_sorted_def by blast
  have "nat (int (length [0 .. byv - 1]) * bxv) = ?N" using hby by (simp add: mult.commute)
  with s'(2) have "length s' = ?N" "\<And>k. k < ?N \<Longrightarrow> s' ! k = ?pair k" by (simp_all add: P_def)
  then have "s' = tile_pairs inp nxv x0bv y0bv bxv byv"
    unfolding tile_pairs_def by (intro nth_equalityI) simp_all
  with s'(1) show ?thesis by simp
qed

lemma fill_ranks_correct:
  assumes n: "0 \<le> n" and ls: "length s = nat n" and lr: "length r0 = nat n"
    and perm: "mset (map snd s) = mset (map int [0..<nat n])"
  shows "\<exists>r. fill_ranks s n r0 = Some r \<and> length r = nat n \<and>
             (\<forall>j<nat n. r ! nat (snd (s ! j)) = int j \<and> 0 \<le> snd (s ! j) \<and> snd (s ! j) < n)"
proof -
  have dist: "distinct (map snd s)"
  proof -
    have "distinct (map int [0..<nat n])" by (simp add: distinct_map)
    then show ?thesis using perm by (metis mset_eq_imp_distinct_iff)
  qed
  have range: "0 \<le> snd (s ! j) \<and> snd (s ! j) < n" if "j < nat n" for j
  proof -
    have "s ! j \<in> set s" using that ls by simp
    then have "snd (s ! j) \<in> set (map snd s)" by simp
    also have "set (map snd s) = set (map int [0..<nat n])" using perm by (metis mset_eq_setD)
    finally show ?thesis using n by auto
  qed
  define I where "I ys r \<longleftrightarrow> length r = nat n \<and> (\<forall>j<length ys. r ! nat (snd (s ! j)) = int j)"
    for ys :: "int list" and r :: "int list"
  have "\<exists>r. for_each (\<lambda>i r. do { e \<leftarrow> rd s i; wr r (snd e) i }) [0 .. n - 1] r0 = Some r \<and>
             I [0 .. n - 1] r"
  proof (rule for_each_rule[where I = I])
    show "I [] r0" using lr by (simp add: I_def)
  next
    fix ys i zs and r :: "int list"
    assume sp: "[0..n - 1] = ys @ i # zs" and inv: "I ys r"
    from upto_split(1,2)[OF sp] have i: "i = int (length ys)" "0 \<le> i" "i < n" by simp_all
    let ?m = "length ys"
    have mn: "?m < nat n" using i by simp
    have r1: "rd s i = Some (s ! ?m)" using i ls by (simp add: rd_def)
    from range[OF mn] have rg: "0 \<le> snd (s ! ?m)" "snd (s ! ?m) < n" by simp_all
    from inv have lr': "length r = nat n" and old: "\<And>j. j < ?m \<Longrightarrow> r ! nat (snd (s ! j)) = int j"
      by (simp_all add: I_def)
    have w1: "wr r (snd (s ! ?m)) i = Some (r[nat (snd (s ! ?m)) := i])"
      using rg lr' by (simp add: wr_def)
    have "I (ys @ [i]) (r[nat (snd (s ! ?m)) := i])"
      unfolding I_def
    proof (intro conjI allI impI)
      show "length (r[nat (snd (s ! ?m)) := i]) = nat n" using lr' by simp
    next
      fix j assume "j < length (ys @ [i])"
      then have j: "j < ?m \<or> j = ?m" by auto
      show "r[nat (snd (s ! ?m)) := i] ! nat (snd (s ! j)) = int j"
      proof (cases "j = ?m")
        case True
        then show ?thesis using rg lr' i by simp
      next
        case False
        with j have jm: "j < ?m" by simp
        have "(map snd s ! j = map snd s ! ?m) = (j = ?m)"
          by (rule nth_eq_iff_index_eq[OF dist]) (use jm mn ls in simp_all)
        then have "snd (s ! j) \<noteq> snd (s ! ?m)" using jm mn ls by simp
        moreover have "0 \<le> snd (s ! j)" using range[of j] jm mn by simp
        ultimately have "nat (snd (s ! ?m)) \<noteq> nat (snd (s ! j))" using rg by simp
        then show ?thesis using old[OF jm] by simp
      qed
    qed
    with r1 w1 show "\<exists>s'. (do { e \<leftarrow> rd s i; wr r (snd e) i }) = Some s' \<and> I (ys @ [i]) s'"
      by simp
  qed
  then show ?thesis unfolding fill_ranks_def I_def using n range by auto
qed

subsection \<open>The constructed block\<close>

lemma map_snd_tile_pairs:
  "map snd (tile_pairs inp nxv x0bv y0bv bxv byv) = map int [0..<nat (bxv * byv)]"
  by (simp add: tile_pairs_def comp_def)

lemma length_tile_pairs [simp]:
  "length (tile_pairs inp nxv x0bv y0bv bxv byv) = nat (bxv * byv)"
  by (simp add: tile_pairs_def)

lemma std_sort_specD:
  assumes "std_sort_spec srt"
  shows "mset (srt xs) = mset xs" and "sorted (map fst (srt xs))" and "length (srt xs) = length xs"
    and "set (srt xs) = set xs"
proof -
  show m: "mset (srt xs) = mset xs" and "sorted (map fst (srt xs))"
    using assms by (simp_all add: std_sort_spec_def)
  from m show "length (srt xs) = length xs" by (metis size_mset)
  from m show "set (srt xs) = set xs" by (metis set_mset_mset)
qed

lemma Block_new_correct:
  assumes srt: "std_sort_spec srt"
    and dims: "0 < nxv" "0 < nyv" "0 \<le> hxv" "0 \<le> hyv"
    and rx: "0 \<le> x0iv" "x0iv \<le> x1iv" "x1iv < nxv"
    and ry: "0 \<le> y0iv" "y0iv \<le> y1iv" "y1iv < nyv"
    and len: "int (length inp) = nyv * nxv"
  shows "\<exists>b. Block_new srt nyv nxv hyv hxv inp x0iv y0iv x1iv y1iv = Some b \<and>
             geom_ok b \<and> tables_ok inp b \<and> psum_inv b \<and> (\<forall>r. \<not> bit_at (buff b) r) \<and>
             nx b = nxv \<and> ny b = nyv \<and> hx b = hxv \<and> hy b = hyv \<and>
             x0i b = x0iv \<and> x1i b = x1iv \<and> y0i b = y0iv \<and> y1i b = y1iv"
proof -
  define X0 where "X0 = max (x0iv - hxv) 0"
  define Y0 where "Y0 = max (y0iv - hyv) 0"
  define X1 where "X1 = min (x1iv + hxv) (nxv - 1)"
  define Y1 where "Y1 = min (y1iv + hyv) (nyv - 1)"
  define BX where "BX = X1 - X0 + 1"
  define BY where "BY = Y1 - Y0 + 1"
  define N where "N = BX * BY"
  have g: "0 \<le> X0" "X0 \<le> x0iv" "x1iv \<le> X1" "X1 < nxv" "0 \<le> Y0" "Y0 \<le> y0iv" "y1iv \<le> Y1" "Y1 < nyv"
    using dims rx ry by (simp_all add: X0_def Y0_def X1_def Y1_def)
  have bpos: "0 < BX" "0 < BY" using g rx ry by (simp_all add: BX_def BY_def)
  then have "0 < BX * BY" by (rule mult_pos_pos)
  then have n0: "0 \<le> N" "\<not> N < 0" by (simp_all add: N_def)
  note eq = Block_new_unfold[of srt nyv nxv hyv hxv inp x0iv y0iv x1iv y1iv,
      folded X0_def Y0_def X1_def Y1_def, folded BX_def BY_def, folded N_def]
  let ?s = "tile_pairs inp nxv X0 Y0 BX BY"
  have fs: "fill_sorted inp nxv X0 Y0 BX BY (replicate (nat N) (0, 0)) = Some ?s"
  proof (rule fill_sorted_correct)
    show "0 < BX" "0 \<le> BY" using bpos by simp_all
    show "length (replicate (nat N) (0 :: real, 0 :: int)) = nat (BX * BY)" by (simp add: N_def)
    fix dy dx assume d: "0 \<le> dy" "dy < BY" "0 \<le> dx" "dx < BX"
    have y: "0 \<le> Y0 + dy" "Y0 + dy < nyv" using d g by (simp_all add: BY_def)
    have x: "0 \<le> X0 + dx" "X0 + dx < nxv" using d g by (simp_all add: BX_def)
    from idx_in_range[OF y x] len
    show "0 \<le> (Y0 + dy) * nxv + (X0 + dx) \<and> (Y0 + dy) * nxv + (X0 + dx) < int (length inp)"
      by simp
  qed
  let ?s' = "srt ?s"
  have ls': "length ?s' = nat N" using std_sort_specD(3)[OF srt, of ?s] by (simp add: N_def)
  have perm: "mset (map snd ?s') = mset (map int [0..<nat N])"
  proof -
    have "mset (map snd ?s') = image_mset snd (mset ?s')" by simp
    also have "\<dots> = image_mset snd (mset ?s)" by (simp add: std_sort_specD(1)[OF srt])
    also have "\<dots> = mset (map snd ?s)" by simp
    finally show ?thesis by (simp add: map_snd_tile_pairs N_def)
  qed
  from fill_ranks_correct[OF n0(1) ls' _ perm, of "replicate (nat N) 0"] obtain r where
    r: "fill_ranks ?s' N (replicate (nat N) 0) = Some r" "length r = nat N"
       "\<And>j. j < nat N \<Longrightarrow> r ! nat (snd (?s' ! j)) = int j"
       "\<And>j. j < nat N \<Longrightarrow> 0 \<le> snd (?s' ! j) \<and> snd (?s' ! j) < N"
    by auto
  define W where "W = (N + 63) div 64"
  have w: "(N + 63) sdiv 64 = W" unfolding W_def using n0 by (simp add: sdiv_nonneg)
  have w0: "0 \<le> W" unfolding W_def using n0 by simp
  have w2: "W sdiv 2 = W div 2" using w0 by (simp add: sdiv_nonneg)
  define b where "b = \<lparr> nx = nxv, ny = nyv, bx = BX, by' = BY, hy = hyv, hx = hxv,
                  x0b = X0, x1b = X1, y0b = Y0, y1b = Y1,
                  x0i = x0iv, y0i = y0iv, x1i = x1iv, y1i = y1iv,
                  x0 = x0iv - X0, y0 = y0iv - Y0, x1 = x1iv - X0, y1 = y1iv - Y0,
                  words = W, p = W div 2, psum = (0, 0),
                  sorted' = ?s', ranks = r, buff = replicate (nat W) 0 \<rparr>"
  have run: "Block_new srt nyv nxv hyv hxv inp x0iv y0iv x1iv y1iv = Some b"
    unfolding eq b_def using n0(2) fs r(1) by (simp add: w w2)
  have f: "nx b = nxv" "ny b = nyv" "bx b = BX" "by' b = BY" "hy b = hyv" "hx b = hxv"
    "x0b b = X0" "x1b b = X1" "y0b b = Y0" "y1b b = Y1"
    "x0i b = x0iv" "y0i b = y0iv" "x1i b = x1iv" "y1i b = y1iv"
    "x0 b = x0iv - X0" "y0 b = y0iv - Y0" "x1 b = x1iv - X0" "y1 b = y1iv - Y0"
    "words b = W" "sorted' b = ?s'" "ranks b = r" "buff b = replicate (nat W) 0"
    by (simp_all add: b_def)
  have geom: "geom_ok b"
    unfolding geom_ok_def f using dims rx ry
    by (simp add: X0_def Y0_def X1_def Y1_def BX_def BY_def)
  have tab: "tables_ok inp b"
    unfolding tables_ok_def f
  proof (intro conjI allI impI)
    show "length ?s' = nat (BX * BY)" using ls' by (simp add: N_def)
    show "length r = nat (BX * BY)" using r(2) by (simp add: N_def)
    show "W = (BX * BY + 63) div 64" by (simp add: W_def N_def)
    show "int (length (replicate (nat W) (0 :: u64))) = W" using w0 by simp
    show "sorted (map fst ?s')" by (rule std_sort_specD(2)[OF srt])
  next
    fix k assume k: "k < nat (BX * BY)"
    let ?e = "(tile_val inp nxv X0 Y0 BX k, int k)"
    have "?e \<in> set ?s" using k by (auto simp: tile_pairs_def)
    then have "?e \<in> set ?s'" by (simp add: std_sort_specD(4)[OF srt])
    then obtain j where j: "j < nat N" "?s' ! j = ?e" using ls' by (auto simp: in_set_conv_nth)
    from r(3)[OF j(1)] j(2) have rk: "r ! k = int j" by simp
    show "0 \<le> r ! k" using rk by simp
    show "r ! k < BX * BY" using rk j(1) by (simp add: N_def)
    show "?s' ! nat (r ! k) = ?e" using rk j(2) by simp
  next
    fix j assume j: "j < nat (BX * BY)"
    then have jn: "j < nat N" by (simp add: N_def)
    show "0 \<le> snd (?s' ! j)" using r(4)[OF jn] by simp
    show "snd (?s' ! j) < BX * BY" using r(4)[OF jn] by (simp add: N_def)
    show "r ! nat (snd (?s' ! j)) = int j" using r(3)[OF jn] .
  qed
  have inv: "psum_inv b" using run by (rule Block_new_psum_inv)
  have empty: "\<forall>r. \<not> bit_at (buff b) r" by (simp add: f bit_at_def)
  show ?thesis using run geom tab inv empty f by blast
qed

subsection \<open>Frames\<close>

lemma frame_refl [simp]: "frame b b"
  by (simp add: frame_def)

lemma frame_trans: "frame b b1 \<Longrightarrow> frame b1 b2 \<Longrightarrow> frame b b2"
proof -
  assume a: "frame b b1" and c: "frame b1 b2"
  have "b2 = b1\<lparr>p := p b2, psum := psum b2, buff := buff b2\<rparr>" using c by (simp add: frame_def)
  also have "b1 = b\<lparr>p := p b1, psum := psum b1, buff := buff b1\<rparr>" using a by (simp add: frame_def)
  finally show ?thesis by (simp add: frame_def)
qed

lemma frame_fields:
  assumes "frame b b'"
  shows "nx b' = nx b" "ny b' = ny b" "bx b' = bx b" "by' b' = by' b" "hx b' = hx b" "hy b' = hy b"
    "x0b b' = x0b b" "y0b b' = y0b b" "x1b b' = x1b b" "y1b b' = y1b b"
    "x0 b' = x0 b" "y0 b' = y0 b" "x1 b' = x1 b" "y1 b' = y1 b"
    "x0i b' = x0i b" "y0i b' = y0i b" "x1i b' = x1i b" "y1i b' = y1i b"
    "words b' = words b" "sorted' b' = sorted' b" "ranks b' = ranks b"
proof -
  have e: "b' = b\<lparr>p := p b', psum := psum b', buff := buff b'\<rparr>" using assms by (simp add: frame_def)
  show "nx b' = nx b" by (subst e) simp
  show "ny b' = ny b" by (subst e) simp
  show "bx b' = bx b" by (subst e) simp
  show "by' b' = by' b" by (subst e) simp
  show "hx b' = hx b" by (subst e) simp
  show "hy b' = hy b" by (subst e) simp
  show "x0b b' = x0b b" by (subst e) simp
  show "y0b b' = y0b b" by (subst e) simp
  show "x1b b' = x1b b" by (subst e) simp
  show "y1b b' = y1b b" by (subst e) simp
  show "x0 b' = x0 b" by (subst e) simp
  show "y0 b' = y0 b" by (subst e) simp
  show "x1 b' = x1 b" by (subst e) simp
  show "y1 b' = y1 b" by (subst e) simp
  show "x0i b' = x0i b" by (subst e) simp
  show "y0i b' = y0i b" by (subst e) simp
  show "x1i b' = x1i b" by (subst e) simp
  show "y1i b' = y1i b" by (subst e) simp
  show "words b' = words b" by (subst e) simp
  show "sorted' b' = sorted' b" by (subst e) simp
  show "ranks b' = ranks b" by (subst e) simp
qed

lemma frame_in_tile: "frame b b' \<Longrightarrow> in_tile b' ix jy = in_tile b ix jy"
  by (simp add: in_tile_def frame_fields)

lemma frame_search: "b' = b\<lparr>p := p b', psum := psum b'\<rparr> \<Longrightarrow> frame b b' \<and> buff b' = buff b"
proof -
  assume e: "b' = b\<lparr>p := p b', psum := psum b'\<rparr>"
  have bf: "buff b' = buff b" by (subst e) simp
  have "b\<lparr>p := p b', psum := psum b', buff := buff b'\<rparr> = b\<lparr>p := p b', psum := psum b'\<rparr>"
    unfolding bf by simp
  with e bf show ?thesis by (simp add: frame_def)
qed

subsection \<open>Ranks and cells\<close>

lemma words_cover:
  fixes n :: int
  assumes "0 \<le> n"
  shows "n \<le> 64 * ((n + 63) div 64)"
  using assms by linarith

lemma binv_rank:
  assumes "binv inp b" "in_tile b ix jy"
  shows "0 \<le> jy * bx b + ix" "jy * bx b + ix < bx b * by' b"
    "nat (jy * bx b + ix) < nat (bx b * by' b)"
    "rank_ok b ix jy"
    "0 \<le> ranks b ! nat (jy * bx b + ix)"
    "nat (ranks b ! nat (jy * bx b + ix)) < nat (bx b * by' b)"
    "sorted' b ! nat (ranks b ! nat (jy * bx b + ix)) =
       (inp ! nat ((y0b b + jy) * nx b + (x0b b + ix)), jy * bx b + ix)"
proof -
  from assms(2) have t: "0 \<le> ix" "ix < bx b" "0 \<le> jy" "jy < by' b" by (simp_all add: in_tile_def)
  let ?k = "jy * bx b + ix"
  show k0: "0 \<le> ?k" using idx_in_range(1)[OF t(3,4,1,2)] .
  show kN: "?k < bx b * by' b" using idx_in_range(2)[OF t(3,4,1,2)] by (simp add: mult.commute)
  show kn: "nat ?k < nat (bx b * by' b)" using k0 kN by simp
  from assms(1) have tab: "tables_ok inp b" by (simp add: binv_def)
  then have l: "length (ranks b) = nat (bx b * by' b)" "words b = (bx b * by' b + 63) div 64"
      "int (length (buff b)) = words b"
    and rk: "\<And>k. k < nat (bx b * by' b) \<Longrightarrow> 0 \<le> ranks b ! k \<and> ranks b ! k < bx b * by' b \<and>
         sorted' b ! nat (ranks b ! k) = (tile_val inp (nx b) (x0b b) (y0b b) (bx b) k, int k)"
    by (simp_all add: tables_ok_def)
  from rk[OF kn] have r: "0 \<le> ranks b ! nat ?k" "ranks b ! nat ?k < bx b * by' b"
    "sorted' b ! nat (ranks b ! nat ?k) = (tile_val inp (nx b) (x0b b) (y0b b) (bx b) (nat ?k), int (nat ?k))"
    by simp_all
  have cover: "bx b * by' b \<le> 64 * int (length (buff b))"
    unfolding l(3) l(2) using kN k0 by (intro words_cover) simp
  show "rank_ok b ix jy" unfolding rank_ok_def using kn l(1) r(1,2) cover by simp
  show "0 \<le> ranks b ! nat ?k" by (rule r(1))
  show "nat (ranks b ! nat ?k) < nat (bx b * by' b)" using r(1,2) by simp
  have "tile_val inp (nx b) (x0b b) (y0b b) (bx b) (nat ?k) = inp ! nat ((y0b b + jy) * nx b + (x0b b + ix))"
    unfolding tile_val_def using k0 div_mod_cell[OF t(1,2), of jy] by simp
  with r(3) k0 show "sorted' b ! nat (ranks b ! nat ?k) =
       (inp ! nat ((y0b b + jy) * nx b + (x0b b + ix)), ?k)" by simp
qed

lemma cell_index_inj:
  fixes w :: int
  assumes "0 \<le> ix" "ix < w" "0 \<le> ix'" "ix' < w" "jy * w + ix = jy' * w + ix'"
  shows "ix = ix' \<and> jy = jy'"
proof -
  have "jy = (jy * w + ix) div w" by (simp only: div_mod_cell(1)[OF assms(1,2)])
  also have "\<dots> = (jy' * w + ix') div w" by (simp only: assms(5))
  also have "\<dots> = jy'" by (simp only: div_mod_cell(1)[OF assms(3,4)])
  finally have j: "jy = jy'" .
  have "ix = (jy * w + ix) mod w" by (simp only: div_mod_cell(2)[OF assms(1,2)])
  also have "\<dots> = (jy' * w + ix') mod w" by (simp only: assms(5))
  also have "\<dots> = ix'" by (simp only: div_mod_cell(2)[OF assms(3,4)])
  finally have i: "ix = ix'" .
  from i j show ?thesis by (rule conjI)
qed

lemma rank_cell_inj:
  assumes "binv inp b" "in_tile b ix jy" "in_tile b ix' jy'"
    and "nat (ranks b ! nat (jy * bx b + ix)) = nat (ranks b ! nat (jy' * bx b + ix'))"
  shows "ix = ix' \<and> jy = jy'"
proof -
  have e1: "snd (sorted' b ! nat (ranks b ! nat (jy * bx b + ix))) = jy * bx b + ix"
    by (simp only: binv_rank(7)[OF assms(1,2)] snd_conv)
  have e2: "snd (sorted' b ! nat (ranks b ! nat (jy' * bx b + ix'))) = jy' * bx b + ix'"
    by (simp only: binv_rank(7)[OF assms(1,3)] snd_conv)
  have "jy * bx b + ix = snd (sorted' b ! nat (ranks b ! nat (jy * bx b + ix)))"
    by (simp only: e1)
  also have "\<dots> = snd (sorted' b ! nat (ranks b ! nat (jy' * bx b + ix')))"
    by (simp only: assms(4))
  also have "\<dots> = jy' * bx b + ix'" by (rule e2)
  finally have "jy * bx b + ix = jy' * bx b + ix'" .
  then show ?thesis using assms(2,3) by (intro cell_index_inj[of ix "bx b"]) (simp_all add: in_tile_def)
qed

lemma win_subset_tile: "win b \<subseteq> {(ix, jy). in_tile b ix jy}"
  by (auto simp: win_def)

lemma finite_tile: "finite {(ix, jy). in_tile b ix jy}"
proof -
  have "{(ix, jy). in_tile b ix jy} \<subseteq> {0..bx b} \<times> {0..by' b}"
    by (auto simp: in_tile_def)
  then show ?thesis by (rule finite_subset) simp
qed

lemma finite_win: "finite (win b)"
  using win_subset_tile finite_tile by (rule finite_subset)

subsection \<open>Adding and removing a cell\<close>

lemma binv_frame_buff:
  assumes "binv inp b" "frame b b'" "psum_inv b'" "length (buff b') = length (buff b)"
    and "\<forall>r. bit_at (buff b') r \<longrightarrow> r < nat (bx b * by' b)"
  shows "binv inp b'"
proof -
  note f = frame_fields[OF assms(2)]
  from assms(1) have "geom_ok b" "tables_ok inp b" "int (length inp) = ny b * nx b"
    by (simp_all add: binv_def)
  then have "geom_ok b'" "tables_ok inp b'" "int (length inp) = ny b' * nx b'"
    unfolding geom_ok_def tables_ok_def f assms(4) by simp_all
  with assms(3,5) show ?thesis unfolding binv_def f by simp
qed

lemma add_rank_win:
  assumes inv: "binv inp b" and new: "(ix, jy) \<notin> win b"
  shows "\<exists>b'. add_rank b ix jy = Some b' \<and> frame b b' \<and> binv inp b' \<and>
              win b' = win b \<union> ({(ix, jy)} \<inter> {(i, j). in_tile b i j})"
proof (cases "in_tile b ix jy")
  case False
  then have "add_rank b ix jy = Some b" by (intro rank_outside) (auto simp: in_tile_def)
  moreover have "{(ix, jy)} \<inter> {(i, j). in_tile b i j} = {}" using False by auto
  ultimately show ?thesis using inv by simp
next
  case True
  let ?r = "ranks b ! nat (jy * bx b + ix)"
  note rk = binv_rank[OF inv True]
  from True have t: "0 \<le> ix" "ix < bx b" "0 \<le> jy" "jy < by' b" by (simp_all add: in_tile_def)
  from rk(4) have r: "jy * bx b + ix < int (length (ranks b))" "0 \<le> ?r"
      "?r < 64 * int (length (buff b))" by (simp_all add: rank_ok_def)
  have rn: "nat ?r < 64 * length (buff b)" using r(2,3) by linarith
  have idx: "int (nat ?r) div 64 = ?r div 64" using r(2) by simp
  have clear: "\<not> bit_at (buff b) (nat ?r)" using new True by (simp add: win_def cell_bit_def)
  define b' where "b' = b\<lparr>buff := toggle (buff b) (nat ?r),
                   psum := psum_add (psum b) (p b \<le> ?r div 64) 1\<rparr>"
  have run: "add_rank b ix jy = Some b'" unfolding b'_def by (rule toggle_step(1)[OF t r])
  have fr: "frame b b'" by (simp add: frame_def b'_def)
  have bf: "buff b' = toggle (buff b) (nat ?r)" by (simp add: b'_def)
  from inv have pinv: "psum_inv b" and rng: "\<And>r. bit_at (buff b) r \<Longrightarrow> r < nat (bx b * by' b)"
    by (simp_all add: binv_def)
  have pinv': "psum_inv b'"
    using psum_inv_add[OF pinv rn clear] unfolding idx b'_def .
  have bits: "bit_at (buff b') r' \<longleftrightarrow> bit_at (buff b) r' \<or> r' = nat ?r" for r'
    unfolding bf using bit_at_toggle[OF rn, of r'] clear by auto
  have inv': "binv inp b'"
    by (rule binv_frame_buff[OF inv fr pinv']) (use bits rng rk(6) in \<open>auto simp: bf\<close>)
  have "win b' = insert (ix, jy) (win b)"
  proof (intro set_eqI iffI)
    fix c assume "c \<in> win b'"
    then obtain i j where c: "c = (i, j)" "in_tile b i j"
        "bit_at (buff b') (nat (ranks b ! nat (j * bx b + i)))"
      by (auto simp: win_def cell_bit_def frame_in_tile[OF fr] frame_fields[OF fr])
    from c(3) bits have "bit_at (buff b) (nat (ranks b ! nat (j * bx b + i))) \<or>
        nat (ranks b ! nat (j * bx b + i)) = nat ?r" by simp
    then show "c \<in> insert (ix, jy) (win b)"
    proof
      assume "bit_at (buff b) (nat (ranks b ! nat (j * bx b + i)))"
      then show ?thesis using c by (simp add: win_def cell_bit_def)
    next
      assume "nat (ranks b ! nat (j * bx b + i)) = nat ?r"
      from rank_cell_inj[OF inv c(2) True this] show ?thesis using c(1) by simp
    qed
  next
    fix c assume "c \<in> insert (ix, jy) (win b)"
    then show "c \<in> win b'"
      using True bits by (auto simp: win_def cell_bit_def frame_in_tile[OF fr] frame_fields[OF fr])
  qed
  moreover have "{(ix, jy)} \<inter> {(i, j). in_tile b i j} = {(ix, jy)}" using True by auto
  ultimately show ?thesis using run fr inv' by simp
qed

lemma remove_rank_win:
  assumes inv: "binv inp b" and old: "in_tile b ix jy \<longrightarrow> (ix, jy) \<in> win b"
  shows "\<exists>b'. remove_rank b ix jy = Some b' \<and> frame b b' \<and> binv inp b' \<and>
              win b' = win b - {(ix, jy)}"
proof (cases "in_tile b ix jy")
  case False
  then have "remove_rank b ix jy = Some b" by (intro rank_outside) (auto simp: in_tile_def)
  moreover have "win b - {(ix, jy)} = win b" using False by (auto simp: win_def)
  ultimately show ?thesis using inv by simp
next
  case True
  let ?r = "ranks b ! nat (jy * bx b + ix)"
  note rk = binv_rank[OF inv True]
  from True have t: "0 \<le> ix" "ix < bx b" "0 \<le> jy" "jy < by' b" by (simp_all add: in_tile_def)
  from rk(4) have r: "jy * bx b + ix < int (length (ranks b))" "0 \<le> ?r"
      "?r < 64 * int (length (buff b))" by (simp_all add: rank_ok_def)
  have rn: "nat ?r < 64 * length (buff b)" using r(2,3) by linarith
  have idx: "int (nat ?r) div 64 = ?r div 64" using r(2) by simp
  have set: "bit_at (buff b) (nat ?r)" using old True by (simp add: win_def cell_bit_def)
  define b' where "b' = b\<lparr>buff := toggle (buff b) (nat ?r),
                   psum := psum_add (psum b) (p b \<le> ?r div 64) (- 1)\<rparr>"
  have run: "remove_rank b ix jy = Some b'" unfolding b'_def by (rule toggle_step(2)[OF t r])
  have fr: "frame b b'" by (simp add: frame_def b'_def)
  have bf: "buff b' = toggle (buff b) (nat ?r)" by (simp add: b'_def)
  from inv have pinv: "psum_inv b" and rng: "\<And>r. bit_at (buff b) r \<Longrightarrow> r < nat (bx b * by' b)"
    by (simp_all add: binv_def)
  have pinv': "psum_inv b'"
    using psum_inv_remove[OF pinv rn set] unfolding idx b'_def .
  have bits: "bit_at (buff b') r' \<longleftrightarrow> bit_at (buff b) r' \<and> r' \<noteq> nat ?r" for r'
    unfolding bf using bit_at_toggle[OF rn, of r'] set by auto
  have inv': "binv inp b'"
    by (rule binv_frame_buff[OF inv fr pinv']) (use bits rng in \<open>auto simp: bf\<close>)
  have "win b' = win b - {(ix, jy)}"
  proof (intro set_eqI iffI)
    fix c assume "c \<in> win b'"
    then obtain i j where c: "c = (i, j)" "in_tile b i j"
        "bit_at (buff b') (nat (ranks b ! nat (j * bx b + i)))"
      by (auto simp: win_def cell_bit_def frame_in_tile[OF fr] frame_fields[OF fr])
    from c(3) bits have "bit_at (buff b) (nat (ranks b ! nat (j * bx b + i)))"
        "nat (ranks b ! nat (j * bx b + i)) \<noteq> nat ?r" by simp_all
    then show "c \<in> win b - {(ix, jy)}" using c by (auto simp: win_def cell_bit_def)
  next
    fix c assume a: "c \<in> win b - {(ix, jy)}"
    then obtain i j where c: "c = (i, j)" "in_tile b i j"
        "bit_at (buff b) (nat (ranks b ! nat (j * bx b + i)))" "(i, j) \<noteq> (ix, jy)"
      by (auto simp: win_def cell_bit_def)
    have "nat (ranks b ! nat (j * bx b + i)) \<noteq> nat ?r"
      using rank_cell_inj[OF inv c(2) True] c(4) by auto
    then show "c \<in> win b'"
      using c bits by (auto simp: win_def cell_bit_def frame_in_tile[OF fr] frame_fields[OF fr])
  qed
  then show ?thesis using run fr inv' by simp
qed

subsection \<open>Geometry of a block\<close>

lemma geom_okD:
  assumes "geom_ok b"
  shows "0 < bx b" "0 < by' b"
    and "0 \<le> x0 b" "x0 b \<le> x1 b" "x1 b < bx b" "0 \<le> y0 b" "y0 b \<le> y1 b" "y1 b < by' b"
    and "0 \<le> x0b b" "0 \<le> y0b b" "x0b b + bx b \<le> nx b" "y0b b + by' b \<le> ny b"
    and "0 \<le> hx b" "0 \<le> hy b" "0 < nx b" "0 < ny b"
    and "x0 b \<le> hx b" "y0 b \<le> hy b"
    and "bx b = min (x1 b + hx b) (nx b - 1 - x0b b) + 1"
    and "by' b = min (y1 b + hy b) (ny b - 1 - y0b b) + 1"
    and "x0b b = 0 \<or> x0 b = hx b" "y0b b = 0 \<or> y0 b = hy b"
proof -
  from assms have g: "0 < nx b" "0 < ny b" "0 \<le> hx b" "0 \<le> hy b"
      "0 \<le> x0i b" "x0i b \<le> x1i b" "x1i b < nx b" "0 \<le> y0i b" "y0i b \<le> y1i b" "y1i b < ny b"
      "x0b b = max (x0i b - hx b) 0" "y0b b = max (y0i b - hy b) 0"
      "x1b b = min (x1i b + hx b) (nx b - 1)" "y1b b = min (y1i b + hy b) (ny b - 1)"
      "x0 b = x0i b - x0b b" "y0 b = y0i b - y0b b" "x1 b = x1i b - x0b b" "y1 b = y1i b - y0b b"
      "bx b = x1b b - x0b b + 1" "by' b = y1b b - y0b b + 1"
    by (simp_all add: geom_ok_def)
  show "0 < bx b" using g(3,5,6,7,11,13,19) by linarith
  show "0 < by' b" using g(4,8,9,10,12,14,20) by linarith
  show "0 \<le> x0 b" using g(3,5,11,15) by linarith
  show "x0 b \<le> x1 b" using g(6,15,17) by linarith
  show "x1 b < bx b" using g(3,7,13,17,19) by linarith
  show "0 \<le> y0 b" using g(4,8,12,16) by linarith
  show "y0 b \<le> y1 b" using g(9,16,18) by linarith
  show "y1 b < by' b" using g(4,10,14,18,20) by linarith
  show "0 \<le> x0b b" using g(11) by linarith
  show "0 \<le> y0b b" using g(12) by linarith
  show "x0b b + bx b \<le> nx b" using g(13,19) by linarith
  show "y0b b + by' b \<le> ny b" using g(14,20) by linarith
  show "0 \<le> hx b" "0 \<le> hy b" "0 < nx b" "0 < ny b" using g(1-4) by simp_all
  show "x0 b \<le> hx b" using g(11,15) by linarith
  show "y0 b \<le> hy b" using g(12,16) by linarith
  show "bx b = min (x1 b + hx b) (nx b - 1 - x0b b) + 1" using g(13,17,19) by linarith
  show "by' b = min (y1 b + hy b) (ny b - 1 - y0b b) + 1" using g(14,18,20) by linarith
  show "x0b b = 0 \<or> x0 b = hx b" using g(11,15) by linarith
  show "y0b b = 0 \<or> y0 b = hy b" using g(12,16) by linarith
qed

lemma int_div_less:
  fixes k w h :: int
  assumes "0 < w" "k < h * w"
  shows "k div w < h"
proof (rule ccontr)
  assume "\<not> k div w < h"
  then have "h * w \<le> (k div w) * w" using assms(1) by (intro mult_right_mono) simp_all
  also have "\<dots> = k - k mod w" by (simp add: algebra_simps minus_mod_eq_mult_div)
  also have "\<dots> \<le> k" using assms(1) by simp
  finally show False using assms(2) by simp
qed

subsection \<open>The values in the window\<close>

lemma bits_are_window_ranks:
  assumes inv: "binv inp b"
  shows "{r. bit_at (buff b) r} = (\<lambda>(ix, jy). nat (ranks b ! nat (jy * bx b + ix))) ` win b"
proof (intro set_eqI iffI)
  fix r assume "r \<in> {r. bit_at (buff b) r}"
  then have bit: "bit_at (buff b) r" by simp
  from inv have tab: "tables_ok inp b" and geo: "geom_ok b"
    and rng: "\<And>r. bit_at (buff b) r \<Longrightarrow> r < nat (bx b * by' b)"
    by (simp_all add: binv_def)
  from rng[OF bit] have rN: "r < nat (bx b * by' b)" .
  let ?k = "snd (sorted' b ! r)"
  from tab rN have k: "0 \<le> ?k" "?k < bx b * by' b" "ranks b ! nat ?k = int r"
    by (simp_all add: tables_ok_def)
  have bxp: "0 < bx b" using geom_okD(1)[OF geo] .
  let ?ix = "?k mod bx b" and ?jy = "?k div bx b"
  have cell: "?jy * bx b + ?ix = ?k" by simp
  have jy: "?jy < by' b"
  proof -
    have "?k < by' b * bx b" using k(2) by (simp add: mult.commute)
    then show ?thesis using bxp by (intro int_div_less)
  qed
  have tile: "in_tile b ?ix ?jy"
    using bxp k(1) jy by (simp add: in_tile_def pos_imp_zdiv_nonneg_iff)
  have "(?ix, ?jy) \<in> win b"
    using tile bit k(3) by (simp add: win_def cell_bit_def cell)
  moreover have "nat (ranks b ! nat (?jy * bx b + ?ix)) = r" using k(3) by (simp add: cell)
  ultimately show "r \<in> (\<lambda>(ix, jy). nat (ranks b ! nat (jy * bx b + ix))) ` win b"
    by force
next
  fix r assume "r \<in> (\<lambda>(ix, jy). nat (ranks b ! nat (jy * bx b + ix))) ` win b"
  then show "r \<in> {r. bit_at (buff b) r}" by (auto simp: win_def cell_bit_def)
qed

lemma rank_inj_on_win:
  assumes inv: "binv inp b"
  shows "inj_on (\<lambda>(ix, jy). nat (ranks b ! nat (jy * bx b + ix))) (win b)"
proof (rule inj_onI)
  fix c c' assume c: "c \<in> win b" "c' \<in> win b"
    and e: "(\<lambda>(ix, jy). nat (ranks b ! nat (jy * bx b + ix))) c =
            (\<lambda>(ix, jy). nat (ranks b ! nat (jy * bx b + ix))) c'"
  obtain i j i' j' where cc: "c = (i, j)" "c' = (i', j')" by (cases c, cases c')
  from c cc have t: "in_tile b i j" "in_tile b i' j'" by (simp_all add: win_def)
  from e cc have "nat (ranks b ! nat (j * bx b + i)) = nat (ranks b ! nat (j' * bx b + i'))" by simp
  from rank_cell_inj[OF inv t this] show "c = c'" using cc by simp
qed

lemma win_card:
  assumes inv: "binv inp b"
  shows "fst (psum b) + snd (psum b) = int (card (win b))"
    and "length (set_ranks (buff b)) = card (win b)"
proof -
  have c: "card {r. bit_at (buff b) r} = card (win b)"
    unfolding bits_are_window_ranks[OF inv] by (rule card_image[OF rank_inj_on_win[OF inv]])
  from inv have "psum_inv b" by (simp add: binv_def)
  then show "fst (psum b) + snd (psum b) = int (card (win b))"
    unfolding psum_inv_card c by simp
  show "length (set_ranks (buff b)) = card (win b)" by (simp add: length_set_ranks c)
qed

lemma win_values:
  assumes inv: "binv inp b"
  shows "mset (map (\<lambda>r. fst (sorted' b ! r)) (set_ranks (buff b))) =
         image_mset (cell_val inp b) (mset_set (win b))"
proof -
  let ?g = "\<lambda>(ix, jy). nat (ranks b ! nat (jy * bx b + ix))"
  let ?f = "\<lambda>r. fst (sorted' b ! r)"
  have "mset (set_ranks (buff b)) = mset_set (set (set_ranks (buff b)))"
    by (simp add: mset_set_set distinct_set_ranks)
  also have "\<dots> = mset_set (?g ` win b)"
    by (simp add: set_set_ranks bits_are_window_ranks[OF inv])
  also have "\<dots> = image_mset ?g (mset_set (win b))"
    by (rule image_mset_mset_set[symmetric, OF rank_inj_on_win[OF inv]])
  finally have "mset (map ?f (set_ranks (buff b))) = image_mset ?f (image_mset ?g (mset_set (win b)))"
    by (metis mset_map)
  also have "\<dots> = image_mset (\<lambda>c. ?f (?g c)) (mset_set (win b))"
    by (simp add: multiset.map_comp comp_def)
  also have "\<dots> = image_mset (cell_val inp b) (mset_set (win b))"
  proof (rule image_mset_cong)
    fix c assume "c \<in># mset_set (win b)"
    then have cw: "c \<in> win b" using finite_win[of b] by simp
    obtain i j where c: "c = (i, j)" by (cases c)
    from cw c have "in_tile b i j" by (simp add: win_def)
    from binv_rank(7)[OF inv this] show "?f (?g c) = cell_val inp b c"
      by (simp add: c cell_val_def)
  qed
  finally show ?thesis .
qed

lemma sorted_values_of_ranks:
  assumes "sorted (map fst T)" "sorted L" "\<forall>r\<in>set L. r < length T"
  shows "sorted (map (\<lambda>r. fst (T ! r)) L)"
  unfolding sorted_iff_nth_mono
proof (intro allI impI)
  fix i j assume ij: "i \<le> j" "j < length (map (\<lambda>r. fst (T ! r)) L)"
  then have j: "j < length L" and i: "i < length L" by simp_all
  have le: "L ! i \<le> L ! j" using assms(2) ij(1) j by (simp add: sorted_nth_mono)
  have lt: "L ! j < length T" using assms(3) j by simp
  have "map fst T ! (L ! i) \<le> map fst T ! (L ! j)"
    by (rule sorted_nth_mono[OF assms(1) le]) (use lt in simp)
  then show "map (\<lambda>r. fst (T ! r)) L ! i \<le> map (\<lambda>r. fst (T ! r)) L ! j"
    using i j le lt by simp
qed

lemma sorted_window:
  assumes inv: "binv inp b" and xs: "mset xs = image_mset (cell_val inp b) (mset_set (win b))"
  shows "sort xs = map (\<lambda>r. fst (sorted' b ! r)) (set_ranks (buff b))"
proof (rule properties_for_sort)
  show "mset (map (\<lambda>r. fst (sorted' b ! r)) (set_ranks (buff b))) = mset xs"
    unfolding xs by (rule win_values[OF inv])
  from inv have tab: "tables_ok inp b"
    and rng: "\<And>r. bit_at (buff b) r \<Longrightarrow> r < nat (bx b * by' b)"
    by (simp_all add: binv_def)
  show "sorted (map (\<lambda>r. fst (sorted' b ! r)) (set_ranks (buff b)))"
  proof (rule sorted_values_of_ranks)
    show "sorted (map fst (sorted' b))" using tab by (simp add: tables_ok_def)
    show "sorted (set_ranks (buff b))" by (rule sorted_set_ranks)
    show "\<forall>r\<in>set (set_ranks (buff b)). r < length (sorted' b)"
      using tab rng by (simp add: set_set_ranks tables_ok_def)
  qed
qed

subsection \<open>\<open>get_median\<close>\<close>

lemma get_median_correct:
  assumes inv: "binv inp b" and ne: "win b \<noteq> {}"
    and xs: "mset xs = image_mset (cell_val inp b) (mset_set (win b))"
  shows "\<exists>b'. get_median b = Some (median_v1 xs, b') \<and> frame b b' \<and> buff b' = buff b \<and>
              binv inp b'"
proof -
  let ?L = "set_ranks (buff b)"
  let ?V = "map (\<lambda>r. fst (sorted' b ! r)) ?L"
  let ?s = "fst (psum b) + snd (psum b)"
  from inv have pinv: "psum_inv b" and tab: "tables_ok inp b"
    and rng: "\<And>r. bit_at (buff b) r \<Longrightarrow> r < nat (bx b * by' b)"
    by (simp_all add: binv_def)
  have sL: "?s = int (length ?L)" using win_card[OF inv] by simp
  have "card (win b) > 0" using ne finite_win[of b] by (simp add: card_gt_0_iff)
  then have s1: "1 \<le> ?s" using win_card(1)[OF inv] by simp
  have srt: "sort xs = ?V" by (rule sorted_window[OF inv xs])
  have lenV: "length (sort xs) = length ?L" unfolding srt by simp
  have lT: "length (sorted' b) = nat (bx b * by' b)" using tab by (simp add: tables_ok_def)
  have k1: "0 \<le> (?s - 1) div 2" "(?s - 1) div 2 < ?s" using s1 by simp_all
  have d1: "(?s - 1) sdiv 2 = (?s - 1) div 2" using s1 by (simp add: sdiv_nonneg)
  have d2: "?s sdiv 2 = ?s div 2" using s1 by (simp add: sdiv_nonneg)
  have m2: "?s smod 2 = ?s mod 2" using s1 by (simp add: smod_nonneg)
  from search_correct[OF pinv k1] obtain b1 where
    b1: "search b ((?s - 1) div 2) = Some (int (?L ! nat ((?s - 1) div 2)), b1)" "psum_inv b1"
        "b1 = b\<lparr>p := p b1, psum := psum b1\<rparr>" "nat ((?s - 1) div 2) < length ?L"
    by blast
  note f1 = frame_search[OF b1(3)]
  have inv1: "binv inp b1"
    by (rule binv_frame_buff[OF inv _ b1(2)]) (use f1 rng in simp_all)
  let ?i1 = "?L ! nat ((?s - 1) div 2)"
  have i1: "?i1 < length (sorted' b)"
    using nth_mem[OF b1(4)] rng lT by (simp add: set_set_ranks)
  have s_b1: "sorted' b1 = sorted' b" using f1 by (simp add: frame_fields)
  have v1: "fst (sorted' b ! ?i1) = ?V ! nat ((?s - 1) div 2)" using b1(4) by simp
  show ?thesis
  proof (cases "?s mod 2 = 1")
    case True
    have mid: "(?s - 1) div 2 = ?s div 2" using True by presburger
    have run: "get_median b = Some (fst (sorted' b ! ?i1), b1)"
      unfolding get_median_def Let_def d1 m2 using b1(1) True i1
      by (simp add: s_b1 rd_def)
    have "median_v1 xs = ?V ! nat (?s div 2)"
      unfolding median_v1_def Let_def lenV srt[symmetric]
      using True s1 sL by (simp add: sdiv_nonneg smod_nonneg)
    with run v1 mid f1 inv1 show ?thesis by simp
  next
    case False
    then have even: "?s mod 2 = 0" by presburger
    have mid: "(?s - 1) div 2 = ?s div 2 - 1" using even by presburger
    have tot1: "fst (psum b1) + snd (psum b1) = ?s"
      using b1(2) pinv f1 by (simp add: psum_inv_def)
    have k2: "0 \<le> ?s div 2" "?s div 2 < fst (psum b1) + snd (psum b1)"
      using s1 tot1 by simp_all
    from search_correct[OF b1(2) k2] f1 obtain b2 where
      b2: "search b1 (?s div 2) = Some (int (?L ! nat (?s div 2)), b2)" "psum_inv b2"
          "b2 = b1\<lparr>p := p b2, psum := psum b2\<rparr>" "nat (?s div 2) < length ?L"
      by auto
    note f2 = frame_search[OF b2(3)]
    have fr2: "frame b b2" using f1 f2 by (blast intro: frame_trans)
    have bf2: "buff b2 = buff b" using f1 f2 by simp
    have inv2: "binv inp b2"
      by (rule binv_frame_buff[OF inv fr2 b2(2)]) (use bf2 rng in simp_all)
    let ?i2 = "?L ! nat (?s div 2)"
    have i2: "?i2 < length (sorted' b)"
      using nth_mem[OF b2(4)] rng lT by (simp add: set_set_ranks)
    have s_b2: "sorted' b2 = sorted' b" using fr2 by (simp add: frame_fields)
    have v2: "fst (sorted' b ! ?i2) = ?V ! nat (?s div 2)" using b2(4) by simp
    have run: "get_median b = Some ((fst (sorted' b ! ?i1) + fst (sorted' b ! ?i2)) / 2, b2)"
      unfolding get_median_def Let_def d1 d2 m2 using b1(1) b2(1) even i1 i2
      by (simp add: s_b2 rd_def)
    have nm: "nat (?s div 2 - 1) = nat (?s div 2) - 1" by simp
    have "median_v1 xs = 0.5 * (?V ! nat (?s div 2) + ?V ! (nat (?s div 2 - 1)))"
      unfolding median_v1_def Let_def lenV srt[symmetric]
      using even s1 sL by (simp add: sdiv_nonneg smod_nonneg)
    moreover from v1 have "fst (sorted' b ! ?i1) = ?V ! nat (?s div 2 - 1)"
      by (simp only: mid)
    ultimately have "median_v1 xs = (fst (sorted' b ! ?i1) + fst (sorted' b ! ?i2)) / 2"
      by (simp only: v2) simp
    with run fr2 bf2 inv2 show ?thesis by simp
  qed
qed

subsection \<open>Loops over cells\<close>

lemma frame_window: "frame b b' \<Longrightarrow> window b' x y = window b x y"
  by (simp add: window_def frame_in_tile frame_fields)

lemma add_cells:
  assumes inv: "binv inp b" and dist: "distinct js" and inj: "inj_on cell (set js)"
    and f: "\<And>i c. i \<in> set js \<Longrightarrow> frame b c \<Longrightarrow> f i c = add_rank c (fst (cell i)) (snd (cell i))"
    and new: "cell ` set js \<inter> win b = {}"
  shows "\<exists>b'. for_each f js b = Some b' \<and> frame b b' \<and> binv inp b' \<and>
              win b' = win b \<union> (cell ` set js \<inter> {(i, j). in_tile b i j})"
proof -
  define I where "I ys c \<longleftrightarrow> frame b c \<and> binv inp c \<and>
      win c = win b \<union> (cell ` set ys \<inter> {(i, j). in_tile b i j})" for ys c
  have "\<exists>b'. for_each f js b = Some b' \<and> I js b'"
  proof (rule for_each_rule[where I = I])
    show "I [] b" using inv by (simp add: I_def)
  next
    fix ys i zs c assume sp: "js = ys @ i # zs" and Ic: "I ys c"
    from Ic have fr: "frame b c" and invc: "binv inp c"
      and w: "win c = win b \<union> (cell ` set ys \<inter> {(i, j). in_tile b i j})"
      by (simp_all add: I_def)
    have imem: "i \<in> set js" and inot: "i \<notin> set ys" using sp dist by auto
    have ys_sub: "set ys \<subseteq> set js" using sp by auto
    have "cell i \<notin> cell ` set ys"
    proof
      assume "cell i \<in> cell ` set ys"
      then obtain k where k: "k \<in> set ys" "cell k = cell i" by auto
      with inj imem ys_sub have "k = i" by (auto dest: inj_onD)
      with k(1) inot show False by simp
    qed
    moreover have "cell i \<notin> win b" using new imem by auto
    ultimately have "(fst (cell i), snd (cell i)) \<notin> win c" unfolding w by simp
    from add_rank_win[OF invc this] obtain c' where
      c': "add_rank c (fst (cell i)) (snd (cell i)) = Some c'" "frame c c'" "binv inp c'"
          "win c' = win c \<union> ({(fst (cell i), snd (cell i))} \<inter> {(i, j). in_tile c i j})"
      by blast
    have "win c' = win b \<union> (cell ` set (ys @ [i]) \<inter> {(i, j). in_tile b i j})"
      unfolding c'(4) w by (auto simp: frame_in_tile[OF fr])
    then have "I (ys @ [i]) c'" unfolding I_def using frame_trans[OF fr c'(2)] c'(3) by simp
    then show "\<exists>s'. f i c = Some s' \<and> I (ys @ [i]) s'" using f[OF imem fr] c'(1) by simp
  qed
  then show ?thesis by (simp add: I_def)
qed

lemma remove_cells:
  assumes inv: "binv inp b"
    and f: "\<And>i c. i \<in> set js \<Longrightarrow> frame b c \<Longrightarrow> f i c = remove_rank c (fst (cell i)) (snd (cell i))"
    and old: "cell ` set js \<inter> {(i, j). in_tile b i j} \<subseteq> win b"
    and dist: "distinct js" and inj: "inj_on cell (set js)"
  shows "\<exists>b'. for_each f js b = Some b' \<and> frame b b' \<and> binv inp b' \<and>
              win b' = win b - cell ` set js"
proof -
  define I where "I ys c \<longleftrightarrow> frame b c \<and> binv inp c \<and> win c = win b - cell ` set ys" for ys c
  have "\<exists>b'. for_each f js b = Some b' \<and> I js b'"
  proof (rule for_each_rule[where I = I])
    show "I [] b" using inv by (simp add: I_def)
  next
    fix ys i zs c assume sp: "js = ys @ i # zs" and Ic: "I ys c"
    from Ic have fr: "frame b c" and invc: "binv inp c"
      and w: "win c = win b - cell ` set ys"
      by (simp_all add: I_def)
    have imem: "i \<in> set js" and inot: "i \<notin> set ys" using sp dist by auto
    have ys_sub: "set ys \<subseteq> set js" using sp by auto
    have notin: "cell i \<notin> cell ` set ys"
    proof
      assume "cell i \<in> cell ` set ys"
      then obtain k where k: "k \<in> set ys" "cell k = cell i" by auto
      with inj imem ys_sub have "k = i" by (auto dest: inj_onD)
      with k(1) inot show False by simp
    qed
    have "in_tile c (fst (cell i)) (snd (cell i)) \<longrightarrow> (fst (cell i), snd (cell i)) \<in> win c"
    proof
      assume "in_tile c (fst (cell i)) (snd (cell i))"
      then have "cell i \<in> {(i, j). in_tile b i j}" by (simp add: frame_in_tile[OF fr] case_prod_beta)
      with old imem have "cell i \<in> win b" by auto
      with notin show "(fst (cell i), snd (cell i)) \<in> win c" unfolding w by simp
    qed
    from remove_rank_win[OF invc this] obtain c' where
      c': "remove_rank c (fst (cell i)) (snd (cell i)) = Some c'" "frame c c'" "binv inp c'"
          "win c' = win c - {(fst (cell i), snd (cell i))}"
      by blast
    have "win c' = win b - cell ` set (ys @ [i])" unfolding c'(4) w by auto
    then have "I (ys @ [i]) c'" unfolding I_def using frame_trans[OF fr c'(2)] c'(3) by simp
    then show "\<exists>s'. f i c = Some s' \<and> I (ys @ [i]) s'" using f[OF imem fr] c'(1) by simp
  qed
  then show ?thesis by (simp add: I_def)
qed

text \<open>A column of cells and a row of cells, as the loops of the traversal visit them.\<close>

lemma add_col_win:
  assumes inv: "binv inp b" and new: "\<And>j. lo \<le> j \<Longrightarrow> j \<le> hi \<Longrightarrow> (ix, j) \<notin> win b"
  shows "\<exists>b'. add_col b ix lo hi = Some b' \<and> frame b b' \<and> binv inp b' \<and>
              win b' = win b \<union> {(i, j). i = ix \<and> lo \<le> j \<and> j \<le> hi \<and> in_tile b i j}"
proof -
  have "\<exists>b'. for_each (\<lambda>jy c. add_rank c ix jy) [lo .. hi] b = Some b' \<and> frame b b' \<and>
          binv inp b' \<and> win b' = win b \<union> ((\<lambda>j. (ix, j)) ` set [lo .. hi] \<inter> {(i, j). in_tile b i j})"
    by (rule add_cells[OF inv]) (use new in \<open>auto simp: inj_on_def\<close>)
  moreover have "(\<lambda>j. (ix, j)) ` set [lo .. hi] \<inter> {(i, j). in_tile b i j} =
      {(i, j). i = ix \<and> lo \<le> j \<and> j \<le> hi \<and> in_tile b i j}" by auto
  ultimately show ?thesis by (simp add: add_col_def)
qed

lemma remove_col_win:
  assumes inv: "binv inp b"
    and old: "\<And>j. lo \<le> j \<Longrightarrow> j \<le> hi \<Longrightarrow> in_tile b ix j \<Longrightarrow> (ix, j) \<in> win b"
  shows "\<exists>b'. remove_col b ix lo hi = Some b' \<and> frame b b' \<and> binv inp b' \<and>
              win b' = win b - {(i, j). i = ix \<and> lo \<le> j \<and> j \<le> hi}"
proof -
  have "\<exists>b'. for_each (\<lambda>jy c. remove_rank c ix jy) [lo .. hi] b = Some b' \<and> frame b b' \<and>
          binv inp b' \<and> win b' = win b - (\<lambda>j. (ix, j)) ` set [lo .. hi]"
    by (rule remove_cells[OF inv]) (use old in \<open>auto simp: inj_on_def\<close>)
  moreover have "(\<lambda>j. (ix, j)) ` set [lo .. hi] = {(i, j). i = ix \<and> lo \<le> j \<and> j \<le> hi}" by auto
  ultimately show ?thesis by (simp add: remove_col_def)
qed

lemma row_cells:
  fixes x h jy :: int
  shows "(\<lambda>i. (x + i, jy)) ` set [- h .. h] = {(i, j). j = jy \<and> x - h \<le> i \<and> i \<le> x + h}"
proof (intro set_eqI iffI)
  fix c :: "int \<times> int" assume "c \<in> {(i, j). j = jy \<and> x - h \<le> i \<and> i \<le> x + h}"
  then obtain i where c: "c = (i, jy)" "x - h \<le> i" "i \<le> x + h" by auto
  have "i - x \<in> set [- h .. h]" using c(2,3) by simp
  then have "(x + (i - x), jy) \<in> (\<lambda>i. (x + i, jy)) ` set [- h .. h]"
    by (rule imageI)
  then show "c \<in> (\<lambda>i. (x + i, jy)) ` set [- h .. h]" using c by simp
qed auto

lemma add_row_win:
  assumes inv: "binv inp b" and g: "\<And>c. frame b c \<Longrightarrow> g c = jy"
    and new: "\<And>i. x - hx b \<le> i \<Longrightarrow> i \<le> x + hx b \<Longrightarrow> (i, jy) \<notin> win b"
  shows "\<exists>b'. for_each (\<lambda>ix c. add_rank c (x + ix) (g c)) [- hx b .. hx b] b = Some b' \<and>
              frame b b' \<and> binv inp b' \<and>
              win b' = win b \<union> {(i, j). j = jy \<and> x - hx b \<le> i \<and> i \<le> x + hx b \<and> in_tile b i j}"
proof -
  have "\<exists>b'. for_each (\<lambda>ix c. add_rank c (x + ix) (g c)) [- hx b .. hx b] b = Some b' \<and>
          frame b b' \<and> binv inp b' \<and>
          win b' = win b \<union> ((\<lambda>i. (x + i, jy)) ` set [- hx b .. hx b] \<inter> {(i, j). in_tile b i j})"
  proof (rule add_cells[OF inv])
    show "distinct [- hx b .. hx b]" by simp
    show "inj_on (\<lambda>i. (x + i, jy)) (set [- hx b .. hx b])" by (auto simp: inj_on_def)
    show "\<And>i c. i \<in> set [- hx b .. hx b] \<Longrightarrow> frame b c \<Longrightarrow>
        add_rank c (x + i) (g c) = add_rank c (fst (x + i, jy)) (snd (x + i, jy))"
      by (simp add: g)
    show "(\<lambda>i. (x + i, jy)) ` set [- hx b .. hx b] \<inter> win b = {}"
      unfolding row_cells using new by auto
  qed
  moreover have "(\<lambda>i. (x + i, jy)) ` set [- hx b .. hx b] \<inter> {(i, j). in_tile b i j} =
      {(i, j). j = jy \<and> x - hx b \<le> i \<and> i \<le> x + hx b \<and> in_tile b i j}"
    unfolding row_cells by auto
  ultimately show ?thesis by simp
qed

lemma remove_row_win:
  assumes inv: "binv inp b" and g: "\<And>c. frame b c \<Longrightarrow> g c = jy"
    and old: "\<And>i. x - hx b \<le> i \<Longrightarrow> i \<le> x + hx b \<Longrightarrow> in_tile b i jy \<Longrightarrow> (i, jy) \<in> win b"
  shows "\<exists>b'. for_each (\<lambda>ix c. remove_rank c (x + ix) (g c)) [- hx b .. hx b] b = Some b' \<and>
              frame b b' \<and> binv inp b' \<and>
              win b' = win b - {(i, j). j = jy \<and> x - hx b \<le> i \<and> i \<le> x + hx b}"
proof -
  have "\<exists>b'. for_each (\<lambda>ix c. remove_rank c (x + ix) (g c)) [- hx b .. hx b] b = Some b' \<and>
          frame b b' \<and> binv inp b' \<and>
          win b' = win b - (\<lambda>i. (x + i, jy)) ` set [- hx b .. hx b]"
  proof (rule remove_cells[OF inv])
    show "distinct [- hx b .. hx b]" by simp
    show "inj_on (\<lambda>i. (x + i, jy)) (set [- hx b .. hx b])" by (auto simp: inj_on_def)
    show "\<And>i c. i \<in> set [- hx b .. hx b] \<Longrightarrow> frame b c \<Longrightarrow>
        remove_rank c (x + i) (g c) = remove_rank c (fst (x + i, jy)) (snd (x + i, jy))"
      by (simp add: g)
    show "(\<lambda>i. (x + i, jy)) ` set [- hx b .. hx b] \<inter> {(i, j). in_tile b i j} \<subseteq> win b"
      unfolding row_cells using old by auto
  qed
  then show ?thesis unfolding row_cells by simp
qed

subsection \<open>Moving the window by one row\<close>

lemma tile_height_le:
  assumes "geom_ok b"
  shows "by' b \<le> ny b"
  using geom_okD(10,12)[OF assms] by linarith

lemma down_remove:
  assumes inv: "binv inp b" and fr: "frame b0 b" and geo: "geom_ok b0"
    and w: "win b = window b0 x y"
  shows "\<exists>b'. (if y - hy b \<ge> 0
               then for_each (\<lambda>ix c. remove_rank c (x + ix) (y - hy c)) [- hx b .. hx b] b
               else Some b) = Some b' \<and>
              frame b b' \<and> binv inp b' \<and> win b' = window b0 x y - {(i, j). j = y - hy b0}"
proof (cases "y - hy b \<ge> 0")
  case True
  note f = frame_fields[OF fr]
  have "\<exists>b'. for_each (\<lambda>ix c. remove_rank c (x + ix) (y - hy c)) [- hx b .. hx b] b = Some b' \<and>
              frame b b' \<and> binv inp b' \<and>
              win b' = win b - {(i, j). j = y - hy b \<and> x - hx b \<le> i \<and> i \<le> x + hx b}"
  proof (rule remove_row_win[OF inv])
    show "\<And>c. frame b c \<Longrightarrow> y - hy c = y - hy b" by (simp add: frame_fields)
    show "\<And>i. x - hx b \<le> i \<Longrightarrow> i \<le> x + hx b \<Longrightarrow> in_tile b i (y - hy b) \<Longrightarrow>
        (i, y - hy b) \<in> win b"
      unfolding w using geom_okD(14)[OF geo]
      by (simp add: window_def f frame_in_tile[OF fr])
  qed
  moreover have "window b0 x y - {(i, j). j = y - hy b \<and> x - hx b \<le> i \<and> i \<le> x + hx b} =
      window b0 x y - {(i, j). j = y - hy b0}"
    by (auto simp: window_def f)
  ultimately show ?thesis using True w by simp
next
  case False
  note f = frame_fields[OF fr]
  have "window b0 x y - {(i, j). j = y - hy b0} = window b0 x y"
    using False by (auto simp: window_def in_tile_def f)
  with False inv w show ?thesis by simp
qed

lemma down_add:
  assumes inv: "binv inp b" and fr: "frame b0 b" and geo: "geom_ok b0"
    and w: "win b = window b0 x y - {(i, j). j = y - hy b0}"
  shows "\<exists>b'. (if (y + 1) + hy b < ny b
               then for_each (\<lambda>ix c. add_rank c (x + ix) ((y + 1) + hy c)) [- hx b .. hx b] b
               else Some b) = Some b' \<and>
              frame b b' \<and> binv inp b' \<and> win b' = window b0 x (y + 1)"
proof -
  note f = frame_fields[OF fr]
  have shift: "(window b0 x y - {(i, j). j = y - hy b0}) \<union>
      {(i, j). j = (y + 1) + hy b \<and> x - hx b \<le> i \<and> i \<le> x + hx b \<and> in_tile b i j} =
      window b0 x (y + 1)"
    using geom_okD(14)[OF geo] by (auto simp: window_def f frame_in_tile[OF fr])
  show ?thesis
  proof (cases "(y + 1) + hy b < ny b")
    case True
    have "\<exists>b'. for_each (\<lambda>ix c. add_rank c (x + ix) ((y + 1) + hy c)) [- hx b .. hx b] b = Some b' \<and>
              frame b b' \<and> binv inp b' \<and>
              win b' = win b \<union> {(i, j). j = (y + 1) + hy b \<and> x - hx b \<le> i \<and> i \<le> x + hx b \<and> in_tile b i j}"
    proof (rule add_row_win[OF inv])
      show "\<And>c. frame b c \<Longrightarrow> (y + 1) + hy c = (y + 1) + hy b" by (simp add: frame_fields)
      show "\<And>i. x - hx b \<le> i \<Longrightarrow> i \<le> x + hx b \<Longrightarrow> (i, (y + 1) + hy b) \<notin> win b"
        unfolding w by (simp add: window_def f)
    qed
    then show ?thesis using True unfolding w shift by simp
  next
    case False
    have "by' b0 \<le> ny b0" by (rule tile_height_le[OF geo])
    with False have "{(i, j). j = (y + 1) + hy b \<and> x - hx b \<le> i \<and> i \<le> x + hx b \<and> in_tile b i j} = {}"
      by (auto simp: in_tile_def f)
    with shift have "window b0 x y - {(i, j). j = y - hy b0} = window b0 x (y + 1)" by simp
    with False inv w show ?thesis by simp
  qed
qed

lemma up_remove:
  assumes inv: "binv inp b" and fr: "frame b0 b" and geo: "geom_ok b0"
    and w: "win b = window b0 x y"
  shows "\<exists>b'. (if y + hy b < ny b
               then for_each (\<lambda>ix c. remove_rank c (x + ix) (y + hy c)) [- hx b .. hx b] b
               else Some b) = Some b' \<and>
              frame b b' \<and> binv inp b' \<and> win b' = window b0 x y - {(i, j). j = y + hy b0}"
proof (cases "y + hy b < ny b")
  case True
  note f = frame_fields[OF fr]
  have "\<exists>b'. for_each (\<lambda>ix c. remove_rank c (x + ix) (y + hy c)) [- hx b .. hx b] b = Some b' \<and>
              frame b b' \<and> binv inp b' \<and>
              win b' = win b - {(i, j). j = y + hy b \<and> x - hx b \<le> i \<and> i \<le> x + hx b}"
  proof (rule remove_row_win[OF inv])
    show "\<And>c. frame b c \<Longrightarrow> y + hy c = y + hy b" by (simp add: frame_fields)
    show "\<And>i. x - hx b \<le> i \<Longrightarrow> i \<le> x + hx b \<Longrightarrow> in_tile b i (y + hy b) \<Longrightarrow>
        (i, y + hy b) \<in> win b"
      unfolding w using geom_okD(14)[OF geo]
      by (simp add: window_def f frame_in_tile[OF fr])
  qed
  moreover have "window b0 x y - {(i, j). j = y + hy b \<and> x - hx b \<le> i \<and> i \<le> x + hx b} =
      window b0 x y - {(i, j). j = y + hy b0}"
    by (auto simp: window_def f)
  ultimately show ?thesis using True w by simp
next
  case False
  note f = frame_fields[OF fr]
  have "by' b0 \<le> ny b0" by (rule tile_height_le[OF geo])
  with False have "window b0 x y - {(i, j). j = y + hy b0} = window b0 x y"
    by (auto simp: window_def in_tile_def f)
  with False inv w show ?thesis by simp
qed

lemma up_add:
  assumes inv: "binv inp b" and fr: "frame b0 b" and geo: "geom_ok b0"
    and w: "win b = window b0 x y - {(i, j). j = y + hy b0}"
  shows "\<exists>b'. (if (y - 1) - hy b \<ge> 0
               then for_each (\<lambda>ix c. add_rank c (x + ix) ((y - 1) - hy c)) [- hx b .. hx b] b
               else Some b) = Some b' \<and>
              frame b b' \<and> binv inp b' \<and> win b' = window b0 x (y - 1)"
proof -
  note f = frame_fields[OF fr]
  have shift: "(window b0 x y - {(i, j). j = y + hy b0}) \<union>
      {(i, j). j = (y - 1) - hy b \<and> x - hx b \<le> i \<and> i \<le> x + hx b \<and> in_tile b i j} =
      window b0 x (y - 1)"
    using geom_okD(14)[OF geo] by (auto simp: window_def f frame_in_tile[OF fr])
  show ?thesis
  proof (cases "(y - 1) - hy b \<ge> 0")
    case True
    have "\<exists>b'. for_each (\<lambda>ix c. add_rank c (x + ix) ((y - 1) - hy c)) [- hx b .. hx b] b = Some b' \<and>
              frame b b' \<and> binv inp b' \<and>
              win b' = win b \<union> {(i, j). j = (y - 1) - hy b \<and> x - hx b \<le> i \<and> i \<le> x + hx b \<and> in_tile b i j}"
    proof (rule add_row_win[OF inv])
      show "\<And>c. frame b c \<Longrightarrow> (y - 1) - hy c = (y - 1) - hy b" by (simp add: frame_fields)
      show "\<And>i. x - hx b \<le> i \<Longrightarrow> i \<le> x + hx b \<Longrightarrow> (i, (y - 1) - hy b) \<notin> win b"
        unfolding w by (simp add: window_def f)
    qed
    then show ?thesis using True unfolding w shift by simp
  next
    case False
    then have "{(i, j). j = (y - 1) - hy b \<and> x - hx b \<le> i \<and> i \<le> x + hx b \<and> in_tile b i j} = {}"
      by (auto simp: in_tile_def f)
    with shift have "window b0 x y - {(i, j). j = y + hy b0} = window b0 x (y - 1)" by simp
    with False inv w show ?thesis by simp
  qed
qed

subsection \<open>The two sweeps\<close>

lemma emit_okD:
  assumes "emit_ok inp b0 emit Q" "binv inp b" "frame b0 b" "win b = window b0 x y"
    "x0 b0 \<le> x" "x \<le> x1 b0" "y0 b0 \<le> y" "y \<le> y1 b0" "Q S out"
  shows "\<exists>b' out'. emit b x y out = Some (b', out') \<and> frame b b' \<and> binv inp b' \<and>
                   win b' = win b \<and> Q (insert (x, y) S) out'"
  using assms unfolding emit_ok_def by blast

lemma down_sweep_correct:
  assumes E: "emit_ok inp b0 emit Q" and geo: "geom_ok b0"
    and x: "x0 b0 \<le> x" "x \<le> x1 b0"
  shows "binv inp b \<Longrightarrow> frame b0 b \<Longrightarrow> win b = window b0 x y \<Longrightarrow> y0 b0 \<le> y \<Longrightarrow> y \<le> y1 b0 \<Longrightarrow>
         Q S out \<Longrightarrow>
         \<exists>b' out'. down_sweep emit x (y1 b0) b out y = Some (b', out', y1 b0) \<and>
                    frame b0 b' \<and> binv inp b' \<and> win b' = window b0 x (y1 b0) \<and>
                    Q (S \<union> {(i, j). i = x \<and> y \<le> j \<and> j < y1 b0}) out'"
proof (induction "nat (y1 b0 - y)" arbitrary: b out y S)
  case 0
  then have y: "y = y1 b0" by simp
  then have "down_sweep emit x (y1 b0) b out y = Some (b, out, y1 b0)"
    by (subst down_sweep.simps) simp
  moreover have "S \<union> {(i, j). i = x \<and> y \<le> j \<and> j < y1 b0} = S" using y by auto
  ultimately show ?case using 0 y by simp
next
  case (Suc n)
  then have ylt: "y < y1 b0" by simp
  from emit_okD[OF E Suc.prems(1,2,3) x Suc.prems(4,5,6)] obtain b1 out1 where
    e: "emit b x y out = Some (b1, out1)" "frame b b1" "binv inp b1" "win b1 = win b"
       "Q (insert (x, y) S) out1"
    by blast
  have fr1: "frame b0 b1" using Suc.prems(2) e(2) by (rule frame_trans)
  have w1: "win b1 = window b0 x y" using e(4) Suc.prems(3) by simp
  from down_remove[OF e(3) fr1 geo w1] obtain b2 where
    r: "(if y - hy b1 \<ge> 0
         then for_each (\<lambda>ix c. remove_rank c (x + ix) (y - hy c)) [- hx b1 .. hx b1] b1
         else Some b1) = Some b2"
       "frame b1 b2" "binv inp b2" "win b2 = window b0 x y - {(i, j). j = y - hy b0}"
    by blast
  have fr2: "frame b0 b2" using fr1 r(2) by (rule frame_trans)
  from down_add[OF r(3) fr2 geo r(4)] obtain b3 where
    a: "(if (y + 1) + hy b2 < ny b2
         then for_each (\<lambda>ix c. add_rank c (x + ix) ((y + 1) + hy c)) [- hx b2 .. hx b2] b2
         else Some b2) = Some b3"
       "frame b2 b3" "binv inp b3" "win b3 = window b0 x (y + 1)"
    by blast
  have fr3: "frame b0 b3" using fr2 a(2) by (rule frame_trans)
  have n: "n = nat (y1 b0 - (y + 1))" using Suc.hyps(2) by simp
  from Suc.hyps(1)[OF n a(3) fr3 a(4) _ _ e(5)] Suc.prems(4) ylt obtain b' out' where
    s: "down_sweep emit x (y1 b0) b3 out1 (y + 1) = Some (b', out', y1 b0)"
       "frame b0 b'" "binv inp b'" "win b' = window b0 x (y1 b0)"
       "Q (insert (x, y) S \<union> {(i, j). i = x \<and> y + 1 \<le> j \<and> j < y1 b0}) out'"
    by auto
  have run: "down_sweep emit x (y1 b0) b out y = Some (b', out', y1 b0)"
    by (subst down_sweep.simps)
       (simp only: ylt if_True e(1) option.case prod.case r(1) a(1) s(1))
  have "insert (x, y) S \<union> {(i, j). i = x \<and> y + 1 \<le> j \<and> j < y1 b0} =
        S \<union> {(i, j). i = x \<and> y \<le> j \<and> j < y1 b0}"
    using ylt by auto
  with s(5) have "Q (S \<union> {(i, j). i = x \<and> y \<le> j \<and> j < y1 b0}) out'" by simp
  with run s(2,3,4) show ?case by blast
qed

lemma up_sweep_correct:
  assumes E: "emit_ok inp b0 emit Q" and geo: "geom_ok b0"
    and x: "x0 b0 \<le> x" "x \<le> x1 b0"
  shows "binv inp b \<Longrightarrow> frame b0 b \<Longrightarrow> win b = window b0 x y \<Longrightarrow> y0 b0 \<le> y \<Longrightarrow> y \<le> y1 b0 \<Longrightarrow>
         Q S out \<Longrightarrow>
         \<exists>b' out'. up_sweep emit x (y0 b0) b out y = Some (b', out', y0 b0) \<and>
                    frame b0 b' \<and> binv inp b' \<and> win b' = window b0 x (y0 b0) \<and>
                    Q (S \<union> {(i, j). i = x \<and> y0 b0 < j \<and> j \<le> y}) out'"
proof (induction "nat (y - y0 b0)" arbitrary: b out y S)
  case 0
  then have y: "y = y0 b0" by simp
  then have "up_sweep emit x (y0 b0) b out y = Some (b, out, y0 b0)"
    by (subst up_sweep.simps) simp
  moreover have "S \<union> {(i, j). i = x \<and> y0 b0 < j \<and> j \<le> y} = S" using y by auto
  ultimately show ?case using 0 y by simp
next
  case (Suc n)
  then have ygt: "y > y0 b0" by simp
  from emit_okD[OF E Suc.prems(1,2,3) x Suc.prems(4,5,6)] obtain b1 out1 where
    e: "emit b x y out = Some (b1, out1)" "frame b b1" "binv inp b1" "win b1 = win b"
       "Q (insert (x, y) S) out1"
    by blast
  have fr1: "frame b0 b1" using Suc.prems(2) e(2) by (rule frame_trans)
  have w1: "win b1 = window b0 x y" using e(4) Suc.prems(3) by simp
  from up_remove[OF e(3) fr1 geo w1] obtain b2 where
    r: "(if y + hy b1 < ny b1
         then for_each (\<lambda>ix c. remove_rank c (x + ix) (y + hy c)) [- hx b1 .. hx b1] b1
         else Some b1) = Some b2"
       "frame b1 b2" "binv inp b2" "win b2 = window b0 x y - {(i, j). j = y + hy b0}"
    by blast
  have fr2: "frame b0 b2" using fr1 r(2) by (rule frame_trans)
  from up_add[OF r(3) fr2 geo r(4)] obtain b3 where
    a: "(if (y - 1) - hy b2 \<ge> 0
         then for_each (\<lambda>ix c. add_rank c (x + ix) ((y - 1) - hy c)) [- hx b2 .. hx b2] b2
         else Some b2) = Some b3"
       "frame b2 b3" "binv inp b3" "win b3 = window b0 x (y - 1)"
    by blast
  have fr3: "frame b0 b3" using fr2 a(2) by (rule frame_trans)
  have n: "n = nat (y - 1 - y0 b0)" using Suc.hyps(2) by simp
  from Suc.hyps(1)[OF n a(3) fr3 a(4) _ _ e(5)] Suc.prems(5) ygt obtain b' out' where
    s: "up_sweep emit x (y0 b0) b3 out1 (y - 1) = Some (b', out', y0 b0)"
       "frame b0 b'" "binv inp b'" "win b' = window b0 x (y0 b0)"
       "Q (insert (x, y) S \<union> {(i, j). i = x \<and> y0 b0 < j \<and> j \<le> y - 1}) out'"
    by auto
  have run: "up_sweep emit x (y0 b0) b out y = Some (b', out', y0 b0)"
    by (subst up_sweep.simps)
       (simp only: ygt if_True e(1) option.case prod.case r(1) a(1) s(1))
  have "insert (x, y) S \<union> {(i, j). i = x \<and> y0 b0 < j \<and> j \<le> y - 1} =
        S \<union> {(i, j). i = x \<and> y0 b0 < j \<and> j \<le> y}"
    using ygt by auto
  with s(5) have "Q (S \<union> {(i, j). i = x \<and> y0 b0 < j \<and> j \<le> y}) out'" by simp
  with run s(2,3,4) show ?case by blast
qed

subsection \<open>Moving the window by one column\<close>

lemma col_remove:
  assumes inv: "binv inp b" and fr: "frame b0 b" and geo: "geom_ok b0"
    and w: "win b = window b0 x y"
  shows "\<exists>b'. remove_col b (x - hx b) (y - hy b) (y + hy b) = Some b' \<and>
              frame b b' \<and> binv inp b' \<and> win b' = window b0 x y - {(i, j). i = x - hx b0}"
proof -
  note f = frame_fields[OF fr]
  have "\<exists>b'. remove_col b (x - hx b) (y - hy b) (y + hy b) = Some b' \<and> frame b b' \<and> binv inp b' \<and>
              win b' = win b - {(i, j). i = x - hx b \<and> y - hy b \<le> j \<and> j \<le> y + hy b}"
  proof (rule remove_col_win[OF inv])
    show "\<And>j. y - hy b \<le> j \<Longrightarrow> j \<le> y + hy b \<Longrightarrow> in_tile b (x - hx b) j \<Longrightarrow>
        (x - hx b, j) \<in> win b"
      unfolding w using geom_okD(13)[OF geo]
      by (simp add: window_def f frame_in_tile[OF fr])
  qed
  moreover have "window b0 x y - {(i, j). i = x - hx b \<and> y - hy b \<le> j \<and> j \<le> y + hy b} =
      window b0 x y - {(i, j). i = x - hx b0}"
    by (auto simp: window_def f)
  ultimately show ?thesis using w by simp
qed

lemma col_add:
  assumes inv: "binv inp b" and fr: "frame b0 b" and geo: "geom_ok b0"
    and w: "win b = window b0 x y - {(i, j). i = x - hx b0}"
  shows "\<exists>b'. add_col b ((x + 1) + hx b) (y - hy b) (y + hy b) = Some b' \<and>
              frame b b' \<and> binv inp b' \<and> win b' = window b0 (x + 1) y"
proof -
  note f = frame_fields[OF fr]
  have "\<exists>b'. add_col b ((x + 1) + hx b) (y - hy b) (y + hy b) = Some b' \<and> frame b b' \<and> binv inp b' \<and>
              win b' = win b \<union> {(i, j). i = (x + 1) + hx b \<and> y - hy b \<le> j \<and> j \<le> y + hy b \<and> in_tile b i j}"
  proof (rule add_col_win[OF inv])
    show "\<And>j. y - hy b \<le> j \<Longrightarrow> j \<le> y + hy b \<Longrightarrow> ((x + 1) + hx b, j) \<notin> win b"
      unfolding w by (simp add: window_def f)
  qed
  moreover have "(window b0 x y - {(i, j). i = x - hx b0}) \<union>
      {(i, j). i = (x + 1) + hx b \<and> y - hy b \<le> j \<and> j \<le> y + hy b \<and> in_tile b i j} =
      window b0 (x + 1) y"
    using geom_okD(13)[OF geo] by (auto simp: window_def f frame_in_tile[OF fr])
  ultimately show ?thesis using w by simp
qed

subsection \<open>The loop over the columns\<close>

lemma col_loop_correct:
  assumes E: "emit_ok inp b0 emit Q" and geo: "geom_ok b0"
  shows "binv inp b \<Longrightarrow> frame b0 b \<Longrightarrow> win b = window b0 x (y0 b0) \<Longrightarrow>
         x0 b0 - 1 \<le> x \<Longrightarrow> x \<le> x1 b0 \<Longrightarrow> Q S out \<Longrightarrow>
         \<exists>b' out'. col_loop emit (x1 b0) b out x = Some (b', out') \<and> frame b0 b' \<and>
                    Q (S \<union> {(i, j). x < i \<and> i \<le> x1 b0 \<and> y0 b0 \<le> j \<and> j \<le> y1 b0}) out'"
proof (induction "nat (x1 b0 - x)" arbitrary: b out x S rule: less_induct)
  case less
  note inv = less.prems(1) and fr = less.prems(2) and w = less.prems(3)
    and xlo = less.prems(4) and xhi = less.prems(5) and q = less.prems(6)
  note f = frame_fields[OF fr]
  note yy = geom_okD(7)[OF geo]
  from col_remove[OF inv fr geo w] obtain b1 where
    r1: "remove_col b (x - hx b) (y0 b0 - hy b) (y0 b0 + hy b) = Some b1"
        "frame b b1" "binv inp b1" "win b1 = window b0 x (y0 b0) - {(i, j). i = x - hx b0}"
    by blast
  have fr1: "frame b0 b1" using fr r1(2) by (rule frame_trans)
  note f1 = frame_fields[OF fr1]
  show ?case
  proof (cases "x + 1 > x1 b0")
    case True
    have run: "col_loop emit (x1 b0) b out x = Some (b1, out)"
      by (subst col_loop.simps)
         (simp only: xhi if_True f(12) r1(1) option.case True)
    have "S \<union> {(i, j). x < i \<and> i \<le> x1 b0 \<and> y0 b0 \<le> j \<and> j \<le> y1 b0} = S"
      using True by auto
    with run fr1 q show ?thesis by simp
  next
    case False
    then have x1: "x0 b0 \<le> x + 1" "x + 1 \<le> x1 b0" using xlo by simp_all
    from col_add[OF r1(3) fr1 geo r1(4)] obtain b2 where
      a2: "add_col b1 ((x + 1) + hx b1) (y0 b0 - hy b1) (y0 b0 + hy b1) = Some b2"
          "frame b1 b2" "binv inp b2" "win b2 = window b0 (x + 1) (y0 b0)"
      by blast
    have fr2: "frame b0 b2" using fr1 a2(2) by (rule frame_trans)
    note f2 = frame_fields[OF fr2]
    from down_sweep_correct[OF E geo x1 a2(3) fr2 a2(4) _ yy q] obtain b3 out3 where
      d3: "down_sweep emit (x + 1) (y1 b0) b2 out (y0 b0) = Some (b3, out3, y1 b0)"
          "frame b0 b3" "binv inp b3" "win b3 = window b0 (x + 1) (y1 b0)"
          "Q (S \<union> {(i, j). i = x + 1 \<and> y0 b0 \<le> j \<and> j < y1 b0}) out3"
      by auto
    from emit_okD[OF E d3(3,2,4) x1 yy _ d3(5)] obtain b4 out4 where
      e4: "emit b3 (x + 1) (y1 b0) out3 = Some (b4, out4)" "frame b3 b4" "binv inp b4"
          "win b4 = win b3"
          "Q (insert (x + 1, y1 b0) (S \<union> {(i, j). i = x + 1 \<and> y0 b0 \<le> j \<and> j < y1 b0})) out4"
      by auto
    have fr4: "frame b0 b4" using d3(2) e4(2) by (rule frame_trans)
    note f4 = frame_fields[OF fr4]
    have w4: "win b4 = window b0 (x + 1) (y1 b0)" using e4(4) d3(4) by simp
    define S1 where "S1 = S \<union> {(i, j). i = x + 1 \<and> y0 b0 \<le> j \<and> j \<le> y1 b0}"
    have "insert (x + 1, y1 b0) (S \<union> {(i, j). i = x + 1 \<and> y0 b0 \<le> j \<and> j < y1 b0}) = S1"
      unfolding S1_def using yy by auto
    with e4(5) have q4: "Q S1 out4" by simp
    from col_remove[OF e4(3) fr4 geo w4] obtain b5 where
      r5: "remove_col b4 ((x + 1) - hx b4) (y1 b0 - hy b4) (y1 b0 + hy b4) = Some b5"
          "frame b4 b5" "binv inp b5"
          "win b5 = window b0 (x + 1) (y1 b0) - {(i, j). i = (x + 1) - hx b0}"
      by blast
    have fr5: "frame b0 b5" using fr4 r5(2) by (rule frame_trans)
    note f5 = frame_fields[OF fr5]
    show ?thesis
    proof (cases "x + 2 > x1 b0")
      case True
      have run: "col_loop emit (x1 b0) b out x = Some (b5, out4)"
        by (subst col_loop.simps)
           (simp only: xhi if_True f(12) r1(1) option.case False if_False f1(12) a2(1) f2(12,14)
              d3(1) prod.case e4(1) r5(1) True)
      have "S \<union> {(i, j). x < i \<and> i \<le> x1 b0 \<and> y0 b0 \<le> j \<and> j \<le> y1 b0} = S1"
        unfolding S1_def using True False by auto
      with run fr5 q4 show ?thesis by simp
    next
      case x2: False
      then have x2': "x0 b0 \<le> x + 2" "x + 2 \<le> x1 b0" using xlo by simp_all
      from col_add[OF r5(3) fr5 geo r5(4)] obtain b6 where
        a6: "add_col b5 ((x + 1 + 1) + hx b5) (y1 b0 - hy b5) (y1 b0 + hy b5) = Some b6"
            "frame b5 b6" "binv inp b6" "win b6 = window b0 (x + 1 + 1) (y1 b0)"
        by blast
      have x11: "x + 1 + 1 = x + 2" by simp
      have fr6: "frame b0 b6" using fr5 a6(2) by (rule frame_trans)
      note f6 = frame_fields[OF fr6]
      have yy1: "y1 b0 \<le> y1 b0" by simp
      from up_sweep_correct[OF E geo x2' a6(3) fr6 a6(4)[unfolded x11] yy yy1 q4] obtain b7 out7 where
        u7: "up_sweep emit (x + 2) (y0 b0) b6 out4 (y1 b0) = Some (b7, out7, y0 b0)"
            "frame b0 b7" "binv inp b7" "win b7 = window b0 (x + 2) (y0 b0)"
            "Q (S1 \<union> {(i, j). i = x + 2 \<and> y0 b0 < j \<and> j \<le> y1 b0}) out7"
        by auto
      have yy0: "y0 b0 \<le> y0 b0" by simp
      from emit_okD[OF E u7(3,2,4) x2' yy0 yy u7(5)] obtain b8 out8 where
        e8: "emit b7 (x + 2) (y0 b0) out7 = Some (b8, out8)" "frame b7 b8" "binv inp b8"
            "win b8 = win b7"
            "Q (insert (x + 2, y0 b0) (S1 \<union> {(i, j). i = x + 2 \<and> y0 b0 < j \<and> j \<le> y1 b0})) out8"
        by auto
      have fr8: "frame b0 b8" using u7(2) e8(2) by (rule frame_trans)
      have w8: "win b8 = window b0 (x + 2) (y0 b0)" using e8(4) u7(4) by simp
      define S2 where "S2 = S1 \<union> {(i, j). i = x + 2 \<and> y0 b0 \<le> j \<and> j \<le> y1 b0}"
      have "insert (x + 2, y0 b0) (S1 \<union> {(i, j). i = x + 2 \<and> y0 b0 < j \<and> j \<le> y1 b0}) = S2"
        unfolding S2_def using yy by auto
      with e8(5) have q8: "Q S2 out8" by simp
      have meas: "nat (x1 b0 - (x + 2)) < nat (x1 b0 - x)" using x2' by simp
      have xlo2: "x0 b0 - 1 \<le> x + 2" using xlo by simp
      from less.hyps[OF meas e8(3) fr8 w8 xlo2 x2'(2) q8] obtain b' out' where
        rec: "col_loop emit (x1 b0) b8 out8 (x + 2) = Some (b', out')" "frame b0 b'"
             "Q (S2 \<union> {(i, j). x + 2 < i \<and> i \<le> x1 b0 \<and> y0 b0 \<le> j \<and> j \<le> y1 b0}) out'"
        by blast
      have run: "col_loop emit (x1 b0) b out x = Some (b', out')"
        by (subst col_loop.simps)
           (simp only: xhi if_True f(12) r1(1) option.case False if_False f1(12) a2(1) f2(12,14)
              d3(1) prod.case e4(1) r5(1) x2 a6(1)[unfolded x11] f6(12,14) u7(1) e8(1) rec(1))
      have "S2 \<union> {(i, j). x + 2 < i \<and> i \<le> x1 b0 \<and> y0 b0 \<le> j \<and> j \<le> y1 b0} =
            S \<union> {(i, j). x < i \<and> i \<le> x1 b0 \<and> y0 b0 \<le> j \<and> j \<le> y1 b0}"
        unfolding S2_def S1_def using x2' by auto
      with rec(3) have "Q (S \<union> {(i, j). x < i \<and> i \<le> x1 b0 \<and> y0 b0 \<le> j \<and> j \<le> y1 b0}) out'"
        by simp
      with run rec(2) show ?thesis by blast
    qed
  qed
qed

subsection \<open>The reference window\<close>

lemma concat_map_product:
  "concat (map (\<lambda>i. map (f i) js) is) = map (\<lambda>(i, j). f i j) (List.product is js)"
  by (induction "is") (simp_all add: comp_def)

lemma mset_grid:
  assumes "distinct is" "distinct js"
  shows "mset (concat (map (\<lambda>i. map (f i) js) is)) =
         image_mset (\<lambda>(i, j). f i j) (mset_set (set is \<times> set js))"
proof -
  have "distinct (List.product is js)" using assms by (rule distinct_product)
  then have "mset (List.product is js) = mset_set (set is \<times> set js)"
    by (simp add: mset_set_set[symmetric])
  then show ?thesis by (simp add: concat_map_product)
qed

lemma axis_window:
  fixes i x h A B n :: int
  assumes "A = 0 \<or> a = h" "a \<le> x" "x \<le> c" "B = min (c + h) (n - 1 - A) + 1" "0 \<le> A"
  shows "(0 \<le> i \<and> i < B \<and> x - h \<le> i \<and> i \<le> x + h) \<longleftrightarrow>
         (max (x + A - h) 0 \<le> i + A \<and> i + A \<le> min (x + A + h + 1) n - 1)"
  using assms by auto

lemma window_global:
  assumes geo: "geom_ok b" and x: "x0 b \<le> x" "x \<le> x1 b" and y: "y0 b \<le> y" "y \<le> y1 b"
  shows "(i, j) \<in> window b x y \<longleftrightarrow>
         (j + y0b b, i + x0b b) \<in>
           {max (y + y0b b - hy b) 0 .. min (y + y0b b + hy b + 1) (ny b) - 1} \<times>
           {max (x + x0b b - hx b) 0 .. min (x + x0b b + hx b + 1) (nx b) - 1}"
proof -
  note g = geom_okD[OF geo]
  have ax: "(0 \<le> i \<and> i < bx b \<and> x - hx b \<le> i \<and> i \<le> x + hx b) \<longleftrightarrow>
         (max (x + x0b b - hx b) 0 \<le> i + x0b b \<and> i + x0b b \<le> min (x + x0b b + hx b + 1) (nx b) - 1)"
    by (rule axis_window[OF g(21) x g(19) g(9)])
  have ay: "(0 \<le> j \<and> j < by' b \<and> y - hy b \<le> j \<and> j \<le> y + hy b) \<longleftrightarrow>
         (max (y + y0b b - hy b) 0 \<le> j + y0b b \<and> j + y0b b \<le> min (y + y0b b + hy b + 1) (ny b) - 1)"
    by (rule axis_window[OF g(22) y g(20) g(10)])
  have "(i, j) \<in> window b x y \<longleftrightarrow>
      (0 \<le> i \<and> i < bx b \<and> x - hx b \<le> i \<and> i \<le> x + hx b) \<and>
      (0 \<le> j \<and> j < by' b \<and> y - hy b \<le> j \<and> j \<le> y + hy b)"
    by (auto simp: window_def in_tile_def)
  also have "\<dots> \<longleftrightarrow>
      (max (x + x0b b - hx b) 0 \<le> i + x0b b \<and> i + x0b b \<le> min (x + x0b b + hx b + 1) (nx b) - 1) \<and>
      (max (y + y0b b - hy b) 0 \<le> j + y0b b \<and> j + y0b b \<le> min (y + y0b b + hy b + 1) (ny b) - 1)"
    by (simp only: ax ay)
  also have "\<dots> \<longleftrightarrow> (j + y0b b, i + x0b b) \<in>
           {max (y + y0b b - hy b) 0 .. min (y + y0b b + hy b + 1) (ny b) - 1} \<times>
           {max (x + x0b b - hx b) 0 .. min (x + x0b b + hx b + 1) (nx b) - 1}"
    by (simp only: mem_Times_iff fst_conv snd_conv atLeastAtMost_iff) blast
  finally show ?thesis .
qed

lemma pixels_window:
  assumes geo: "geom_ok b" and x: "x0 b \<le> x" "x \<le> x1 b" and y: "y0 b \<le> y" "y \<le> y1 b"
  shows "mset (pixels_v1 inp (ny b) (nx b) (hy b) (hx b) (y + y0b b) (x + x0b b)) =
         image_mset (cell_val inp b) (mset_set (window b x y))"
proof -
  let ?ys = "[max (y + y0b b - hy b) 0 .. min (y + y0b b + hy b + 1) (ny b) - 1]"
  let ?xs = "[max (x + x0b b - hx b) 0 .. min (x + x0b b + hx b + 1) (nx b) - 1]"
  let ?F = "\<lambda>(i, j). inp ! nat (nx b * i + j)"
  let ?h = "\<lambda>(i, j). (j + y0b b, i + x0b b)"
  have inj: "inj_on ?h (window b x y)" by (auto simp: inj_on_def)
  have img: "?h ` window b x y = set ?ys \<times> set ?xs"
  proof (intro set_eqI iffI)
    fix c assume "c \<in> ?h ` window b x y"
    then obtain i j where "c = (j + y0b b, i + x0b b)" "(i, j) \<in> window b x y" by auto
    then show "c \<in> set ?ys \<times> set ?xs"
      using window_global[OF geo x y, of i j] by simp
  next
    fix c assume c: "c \<in> set ?ys \<times> set ?xs"
    obtain gy gx where cc: "c = (gy, gx)" by (cases c)
    have "(gx - x0b b, gy - y0b b) \<in> window b x y"
      using window_global[OF geo x y, of "gx - x0b b" "gy - y0b b"] c cc by simp
    then have "?h (gx - x0b b, gy - y0b b) \<in> ?h ` window b x y" by (rule imageI)
    then show "c \<in> ?h ` window b x y" using cc by simp
  qed
  have "mset (pixels_v1 inp (ny b) (nx b) (hy b) (hx b) (y + y0b b) (x + x0b b)) =
        image_mset ?F (mset_set (set ?ys \<times> set ?xs))"
    unfolding pixels_v1_def by (rule mset_grid) simp_all
  also have "\<dots> = image_mset ?F (image_mset ?h (mset_set (window b x y)))"
    unfolding img[symmetric] by (simp add: image_mset_mset_set[OF inj])
  also have "\<dots> = image_mset (\<lambda>c. ?F (?h c)) (mset_set (window b x y))"
    by (simp add: multiset.map_comp comp_def)
  also have "\<dots> = image_mset (cell_val inp b) (mset_set (window b x y))"
    by (rule image_mset_cong) (auto simp: cell_val_def algebra_simps)
  finally show ?thesis .
qed

lemma self_in_window:
  assumes geo: "geom_ok b" and x: "x0 b \<le> x" "x \<le> x1 b" and y: "y0 b \<le> y" "y \<le> y1 b"
  shows "(x, y) \<in> window b x y"
  using geom_okD[OF geo] x y by (simp add: window_def in_tile_def)

subsection \<open>The priming loop and the whole traversal\<close>

lemma prime_correct:
  assumes inv: "binv inp b" and empty: "win b = {}"
  shows "\<exists>b'. for_each (\<lambda>ix c. add_col c ix (y0 c - hy c) (y0 c + hy c))
                 [x0 b - hx b .. x0 b + hx b - 1] b = Some b' \<and>
              frame b b' \<and> binv inp b' \<and> win b' = window b (x0 b - 1) (y0 b)"
proof -
  from inv have geo: "geom_ok b" by (simp add: binv_def)
  let ?js = "[x0 b - hx b .. x0 b + hx b - 1]"
  define I where "I ys c \<longleftrightarrow> frame b c \<and> binv inp c \<and>
      win c = {(i, j). i \<in> set ys \<and> y0 b - hy b \<le> j \<and> j \<le> y0 b + hy b \<and> in_tile b i j}"
    for ys c
  have "\<exists>b'. for_each (\<lambda>ix c. add_col c ix (y0 c - hy c) (y0 c + hy c)) ?js b = Some b' \<and> I ?js b'"
  proof (rule for_each_rule[where I = I])
    show "I [] b" using inv empty by (simp add: I_def)
  next
    fix ys i zs c assume sp: "?js = ys @ i # zs" and Ic: "I ys c"
    from Ic have fr: "frame b c" and invc: "binv inp c"
      and w: "win c = {(i, j). i \<in> set ys \<and> y0 b - hy b \<le> j \<and> j \<le> y0 b + hy b \<and> in_tile b i j}"
      by (simp_all add: I_def)
    note f = frame_fields[OF fr]
    have "distinct (ys @ i # zs)" unfolding sp[symmetric] by simp
    then have inot: "i \<notin> set ys" by simp
    have "\<exists>c'. add_col c i (y0 c - hy c) (y0 c + hy c) = Some c' \<and> frame c c' \<and> binv inp c' \<and>
              win c' = win c \<union> {(i', j). i' = i \<and> y0 c - hy c \<le> j \<and> j \<le> y0 c + hy c \<and> in_tile c i' j}"
      by (rule add_col_win[OF invc]) (use inot w in auto)
    then obtain c' where c': "add_col c i (y0 c - hy c) (y0 c + hy c) = Some c'" "frame c c'"
        "binv inp c'"
        "win c' = win c \<union> {(i', j). i' = i \<and> y0 c - hy c \<le> j \<and> j \<le> y0 c + hy c \<and> in_tile c i' j}"
      by blast
    have "win c' = {(i', j). i' \<in> set (ys @ [i]) \<and> y0 b - hy b \<le> j \<and> j \<le> y0 b + hy b \<and> in_tile b i' j}"
      unfolding c'(4) w by (auto simp: f frame_in_tile[OF fr])
    then have "I (ys @ [i]) c'" unfolding I_def using frame_trans[OF fr c'(2)] c'(3) by simp
    with c'(1) show "\<exists>s'. add_col c i (y0 c - hy c) (y0 c + hy c) = Some s' \<and> I (ys @ [i]) s'"
      by blast
  qed
  then obtain b' where b': "for_each (\<lambda>ix c. add_col c ix (y0 c - hy c) (y0 c + hy c)) ?js b = Some b'"
      "frame b b'" "binv inp b'"
      "win b' = {(i, j). i \<in> set ?js \<and> y0 b - hy b \<le> j \<and> j \<le> y0 b + hy b \<and> in_tile b i j}"
    by (auto simp: I_def)
  have "{(i, j). i \<in> set ?js \<and> y0 b - hy b \<le> j \<and> j \<le> y0 b + hy b \<and> in_tile b i j} =
        window b (x0 b - 1) (y0 b)"
    using geom_okD(17)[OF geo] by (auto simp: window_def in_tile_def)
  with b' show ?thesis by simp
qed

lemma traverse_correct:
  assumes E: "emit_ok inp b emit Q" and inv: "binv inp b" and empty: "win b = {}" and q: "Q S out"
  shows "\<exists>b' out'. traverse emit b out = Some (b', out') \<and> frame b b' \<and>
           Q (S \<union> {(i, j). x0 b \<le> i \<and> i \<le> x1 b \<and> y0 b \<le> j \<and> j \<le> y1 b}) out'"
proof -
  from inv have geo: "geom_ok b" by (simp add: binv_def)
  from prime_correct[OF inv empty] obtain b1 where
    p: "for_each (\<lambda>ix c. add_col c ix (y0 c - hy c) (y0 c + hy c))
          [x0 b - hx b .. x0 b + hx b - 1] b = Some b1"
       "frame b b1" "binv inp b1" "win b1 = window b (x0 b - 1) (y0 b)"
    by blast
  note f1 = frame_fields[OF p(2)]
  have xlo: "x0 b - 1 \<le> x0 b - 1" by simp
  have xhi: "x0 b - 1 \<le> x1 b" using geom_okD(4)[OF geo] by simp
  from col_loop_correct[OF E geo p(3,2,4) xlo xhi q] obtain b' out' where
    c: "col_loop emit (x1 b) b1 out (x0 b - 1) = Some (b', out')" "frame b b'"
       "Q (S \<union> {(i, j). x0 b - 1 < i \<and> i \<le> x1 b \<and> y0 b \<le> j \<and> j \<le> y1 b}) out'"
    by blast
  have run: "traverse emit b out = Some (b', out')"
    unfolding traverse_def by (simp add: p(1) f1 c(1))
  have "{(i, j). x0 b - 1 < i \<and> i \<le> x1 b \<and> y0 b \<le> j \<and> j \<le> y1 b} =
        {(i, j). x0 b \<le> i \<and> i \<le> x1 b \<and> y0 b \<le> j \<and> j \<le> y1 b}" by auto
  with c(3) run c(2) show ?thesis by simp
qed

subsection \<open>Writing the median of a pixel\<close>

lemma win_frame_buff:
  assumes "frame b b'" "buff b' = buff b"
  shows "win b' = win b"
  unfolding win_def cell_bit_def using assms
  by (simp add: frame_in_tile frame_fields)

lemma cell_val_frame: "frame b b' \<Longrightarrow> cell_val inp b' = cell_val inp b"
  by (simp add: cell_val_def frame_fields fun_eq_iff)

lemma out_index:
  assumes geo: "geom_ok b" and x: "x0 b \<le> x" "x \<le> x1 b" and y: "y0 b \<le> y" "y \<le> y1 b"
  shows "0 \<le> (x + x0b b) + nx b * (y + y0b b)"
    and "(x + x0b b) + nx b * (y + y0b b) < ny b * nx b"
    and "0 \<le> x + x0b b" "x + x0b b < nx b"
proof -
  note g = geom_okD[OF geo]
  have gy: "0 \<le> y + y0b b" "y + y0b b < ny b" using g y by linarith+
  show gx: "0 \<le> x + x0b b" "x + x0b b < nx b" using g x by linarith+
  from idx_in_range[OF gy gx]
  show "0 \<le> (x + x0b b) + nx b * (y + y0b b)" "(x + x0b b) + nx b * (y + y0b b) < ny b * nx b"
    by (simp_all add: algebra_simps)
qed

lemma out_index_inj:
  assumes geo: "geom_ok b"
    and c: "x0 b \<le> i" "i \<le> x1 b" "y0 b \<le> j" "j \<le> y1 b"
    and c': "x0 b \<le> i'" "i' \<le> x1 b" "y0 b \<le> j'" "j' \<le> y1 b"
    and e: "nat ((i + x0b b) + nx b * (j + y0b b)) = nat ((i' + x0b b) + nx b * (j' + y0b b))"
  shows "i = i' \<and> j = j'"
proof -
  note a = out_index[OF geo c] and a' = out_index[OF geo c']
  from e a(1) a'(1) have "(i + x0b b) + nx b * (j + y0b b) = (i' + x0b b) + nx b * (j' + y0b b)"
    by linarith
  then have "(j + y0b b) * nx b + (i + x0b b) = (j' + y0b b) * nx b + (i' + x0b b)"
    by (simp add: algebra_simps)
  from cell_index_inj[OF a(3,4) a'(3,4) this] show ?thesis by simp
qed

lemma put_median_ok:
  assumes inv0: "binv inp b0" and len: "int (length out0) = ny b0 * nx b0"
  shows "emit_ok inp b0 put_median (out_ok inp b0 out0)"
  unfolding emit_ok_def
proof (intro allI impI)
  fix b x y out S
  assume a: "binv inp b \<and> frame b0 b \<and> win b = window b0 x y \<and>
        x0 b0 \<le> x \<and> x \<le> x1 b0 \<and> y0 b0 \<le> y \<and> y \<le> y1 b0 \<and> out_ok inp b0 out0 S out"
  then have inv: "binv inp b" and fr: "frame b0 b" and w: "win b = window b0 x y"
    and x: "x0 b0 \<le> x" "x \<le> x1 b0" and y: "y0 b0 \<le> y" "y \<le> y1 b0"
    and q: "out_ok inp b0 out0 S out" by simp_all
  from inv0 have geo: "geom_ok b0" by (simp add: binv_def)
  let ?xs = "pixels_v1 inp (ny b0) (nx b0) (hy b0) (hx b0) (y + y0b b0) (x + x0b b0)"
  let ?g = "\<lambda>(i, j). nat ((i + x0b b0) + nx b0 * (j + y0b b0))"
  have ne: "win b \<noteq> {}" unfolding w using self_in_window[OF geo x y] by auto
  have xs: "mset ?xs = image_mset (cell_val inp b) (mset_set (win b))"
    unfolding w cell_val_frame[OF fr] by (rule pixels_window[OF geo x y])
  from get_median_correct[OF inv ne xs] obtain b' where
    g: "get_median b = Some (median_v1 ?xs, b')" "frame b b'" "buff b' = buff b" "binv inp b'"
    by blast
  have fr': "frame b0 b'" using fr g(2) by (rule frame_trans)
  note f' = frame_fields[OF fr']
  note oi = out_index[OF geo x y]
  from q have lo: "length out = length out0"
    and sub: "S \<subseteq> {(i, j). x0 b0 \<le> i \<and> i \<le> x1 b0 \<and> y0 b0 \<le> j \<and> j \<le> y1 b0}"
    and val: "\<And>i j. (i, j) \<in> S \<Longrightarrow> out ! ?g (i, j) =
          median_v1 (pixels_v1 inp (ny b0) (nx b0) (hy b0) (hx b0) (j + y0b b0) (i + x0b b0))"
    and rest: "\<And>k. k \<notin> ?g ` S \<Longrightarrow> out ! k = out0 ! k"
    by (auto simp: out_ok_def)
  let ?k = "nat ((x + x0b b0) + nx b0 * (y + y0b b0))"
  have klt: "?k < length out" using oi(1,2) lo len by linarith
  have wrv: "wr out ((x + x0b b0) + nx b0 * (y + y0b b0)) (median_v1 ?xs) =
      Some (out[?k := median_v1 ?xs])"
    using oi(1,2) lo len by (simp add: wr_def)
  have run: "put_median b x y out = Some (b', out[?k := median_v1 ?xs])"
    unfolding put_median_def by (simp add: g(1) f' wrv)
  have ok: "out_ok inp b0 out0 (insert (x, y) S) (out[?k := median_v1 ?xs])"
    unfolding out_ok_def
  proof (intro conjI ballI allI impI)
    show "length (out[?k := median_v1 ?xs]) = length out0" using lo by simp
    show "insert (x, y) S \<subseteq> {(i, j). x0 b0 \<le> i \<and> i \<le> x1 b0 \<and> y0 b0 \<le> j \<and> j \<le> y1 b0}"
      using sub x y by auto
  next
    fix c assume c: "c \<in> insert (x, y) S"
    obtain i j where cc: "c = (i, j)" by (cases c)
    have "out[?k := median_v1 ?xs] ! ?g (i, j) =
        median_v1 (pixels_v1 inp (ny b0) (nx b0) (hy b0) (hx b0) (j + y0b b0) (i + x0b b0))"
    proof (cases "?g (i, j) = ?k")
      case True
      have "(i, j) \<in> {(i, j). x0 b0 \<le> i \<and> i \<le> x1 b0 \<and> y0 b0 \<le> j \<and> j \<le> y1 b0}"
        using c cc sub x y by auto
      then have ij: "x0 b0 \<le> i" "i \<le> x1 b0" "y0 b0 \<le> j" "j \<le> y1 b0" by simp_all
      from True have "nat ((i + x0b b0) + nx b0 * (j + y0b b0)) = ?k" by simp
      from out_index_inj[OF geo ij x y this] have "i = x" "j = y" by simp_all
      then show ?thesis using klt by simp
    next
      case False
      with c cc have "(i, j) \<in> S" by auto
      from val[OF this] False show ?thesis by simp
    qed
    then show "case c of (i, j) \<Rightarrow> out[?k := median_v1 ?xs] ! nat ((i + x0b b0) + nx b0 * (j + y0b b0)) =
        median_v1 (pixels_v1 inp (ny b0) (nx b0) (hy b0) (hx b0) (j + y0b b0) (i + x0b b0))"
      by (simp add: cc)
  next
    fix k assume k: "k \<notin> ?g ` insert (x, y) S"
    then have "k \<noteq> ?k" "k \<notin> ?g ` S" by auto
    then show "out[?k := median_v1 ?xs] ! k = out0 ! k" using rest by simp
  qed
  have "win b' = win b" by (rule win_frame_buff[OF g(2,3)])
  with run g(2,4) ok
  show "\<exists>b' out'. put_median b x y out = Some (b', out') \<and> frame b b' \<and> binv inp b' \<and>
          win b' = win b \<and> out_ok inp b0 out0 (insert (x, y) S) out'"
    by blast
qed

subsection \<open>One block\<close>

lemma compute_median_correct:
  assumes inv: "binv inp b" and empty: "win b = {}" and len: "int (length out) = ny b * nx b"
  shows "\<exists>out'. compute_median b out = Some out' \<and>
           out_ok inp b out {(i, j). x0 b \<le> i \<and> i \<le> x1 b \<and> y0 b \<le> j \<and> j \<le> y1 b} out'"
proof -
  have q: "out_ok inp b out {} out" by (simp add: out_ok_def)
  from traverse_correct[OF put_median_ok[OF inv len] inv empty q] obtain b' out' where
    "traverse put_median b out = Some (b', out')"
    "out_ok inp b out ({} \<union> {(i, j). x0 b \<le> i \<and> i \<le> x1 b \<and> y0 b \<le> j \<and> j \<le> y1 b}) out'"
    by blast
  then show ?thesis by (simp add: compute_median_def)
qed

lemma empty_win: "\<forall>r. \<not> bit_at (buff b) r \<Longrightarrow> win b = {}"
  by (auto simp: win_def cell_bit_def)

text \<open>The same in image coordinates, for a block built by the constructor.\<close>

lemma block_correct:
  assumes srt: "std_sort_spec srt"
    and dims: "0 < nxv" "0 < nyv" "0 \<le> hxv" "0 \<le> hyv"
    and rx: "0 \<le> x0iv" "x0iv \<le> x1iv" "x1iv < nxv"
    and ry: "0 \<le> y0iv" "y0iv \<le> y1iv" "y1iv < nyv"
    and len: "int (length inp) = nyv * nxv" and leno: "int (length out) = nyv * nxv"
  shows "\<exists>b out'. Block_new srt nyv nxv hyv hxv inp x0iv y0iv x1iv y1iv = Some b \<and>
           compute_median b out = Some out' \<and> length out' = length out \<and>
           (\<forall>gy gx. y0iv \<le> gy \<and> gy \<le> y1iv \<and> x0iv \<le> gx \<and> gx \<le> x1iv \<longrightarrow>
               out' ! nat (nxv * gy + gx) = median_v1 (pixels_v1 inp nyv nxv hyv hxv gy gx)) \<and>
           (\<forall>k. (\<forall>gy gx. y0iv \<le> gy \<and> gy \<le> y1iv \<and> x0iv \<le> gx \<and> gx \<le> x1iv \<longrightarrow>
                      k \<noteq> nat (nxv * gy + gx)) \<longrightarrow> out' ! k = out ! k)"
proof -
  from Block_new_correct[OF srt dims rx ry len] obtain b where
    b: "Block_new srt nyv nxv hyv hxv inp x0iv y0iv x1iv y1iv = Some b"
       "geom_ok b" "tables_ok inp b" "psum_inv b" "\<forall>r. \<not> bit_at (buff b) r"
    and f: "nx b = nxv" "ny b = nyv" "hx b = hxv" "hy b = hyv"
       "x0i b = x0iv" "x1i b = x1iv" "y0i b = y0iv" "y1i b = y1iv"
    by blast
  have inv: "binv inp b" unfolding binv_def using b len f by simp
  have leno': "int (length out) = ny b * nx b" using leno f by simp
  from compute_median_correct[OF inv empty_win[OF b(5)] leno'] obtain out' where
    c: "compute_median b out = Some out'"
       "out_ok inp b out {(i, j). x0 b \<le> i \<and> i \<le> x1 b \<and> y0 b \<le> j \<and> j \<le> y1 b} out'"
    by blast
  let ?S = "{(i, j). x0 b \<le> i \<and> i \<le> x1 b \<and> y0 b \<le> j \<and> j \<le> y1 b}"
  from c(2) have lo: "length out' = length out"
    and val: "\<And>i j. (i, j) \<in> ?S \<Longrightarrow> out' ! nat ((i + x0b b) + nx b * (j + y0b b)) =
          median_v1 (pixels_v1 inp (ny b) (nx b) (hy b) (hx b) (j + y0b b) (i + x0b b))"
    and rest: "\<And>k. k \<notin> (\<lambda>(i, j). nat ((i + x0b b) + nx b * (j + y0b b))) ` ?S \<Longrightarrow> out' ! k = out ! k"
    unfolding out_ok_def by (simp_all add: Ball_def)
  from b(2) have loc: "x0 b = x0iv - x0b b" "y0 b = y0iv - y0b b" "x1 b = x1iv - x0b b"
      "y1 b = y1iv - y0b b"
    by (simp_all add: geom_ok_def f)
  have v: "out' ! nat (nxv * gy + gx) = median_v1 (pixels_v1 inp nyv nxv hyv hxv gy gx)"
    if "y0iv \<le> gy \<and> gy \<le> y1iv \<and> x0iv \<le> gx \<and> gx \<le> x1iv" for gy gx
  proof -
    have "(gx - x0b b, gy - y0b b) \<in> ?S" using that loc by simp
    from val[OF this] show ?thesis by (simp add: f algebra_simps)
  qed
  have r: "out' ! k = out ! k"
    if k: "\<forall>gy gx. y0iv \<le> gy \<and> gy \<le> y1iv \<and> x0iv \<le> gx \<and> gx \<le> x1iv \<longrightarrow> k \<noteq> nat (nxv * gy + gx)"
    for k
  proof (rule rest, rule notI)
    assume "k \<in> (\<lambda>(i, j). nat ((i + x0b b) + nx b * (j + y0b b))) ` ?S"
    then obtain i j where ij: "(i, j) \<in> ?S" "k = nat ((i + x0b b) + nx b * (j + y0b b))" by auto
    have "y0iv \<le> j + y0b b \<and> j + y0b b \<le> y1iv \<and> x0iv \<le> i + x0b b \<and> i + x0b b \<le> x1iv"
      using ij(1) loc by simp
    with k have "k \<noteq> nat (nxv * (j + y0b b) + (i + x0b b))" by blast
    with ij(2) show False by (simp add: f algebra_simps)
  qed
  show ?thesis using b(1) c(1) lo v r by blast
qed

subsection \<open>The reference filter\<close>

lemma fold_rule_aux:
  assumes step: "\<And>ys i zs s. js = ys @ i # zs \<Longrightarrow> I ys s \<Longrightarrow> I (ys @ [i]) (f i s)"
  shows "js = pre @ rest \<Longrightarrow> I pre s \<Longrightarrow> I js (fold f rest s)"
proof (induction rest arbitrary: pre s)
  case Nil
  then show ?case by simp
next
  case (Cons i rest)
  have "I (pre @ [i]) (f i s)" using step[OF Cons.prems(1) Cons.prems(2)] .
  moreover have "js = (pre @ [i]) @ rest" using Cons.prems(1) by simp
  ultimately have "I js (fold f rest (f i s))" by (rule Cons.IH[rotated])
  then show ?case by simp
qed

lemma fold_rule:
  assumes "I [] s"
    and "\<And>ys i zs s. js = ys @ i # zs \<Longrightarrow> I ys s \<Longrightarrow> I (ys @ [i]) (f i s)"
  shows "I js (fold f js s)"
  using fold_rule_aux[of js I f "[]" js s] assms by simp

lemma pixel_index:
  fixes gy gx nyv nxv :: int
  assumes "0 \<le> gy" "gy < nyv" "0 \<le> gx" "gx < nxv"
  shows "0 \<le> nxv * gy + gx" "nxv * gy + gx < nyv * nxv"
  using idx_in_range[OF assms] by (simp_all add: mult.commute)

lemma pixel_index_inj:
  fixes gy gx gy' gx' nxv :: int
  assumes "0 \<le> gx" "gx < nxv" "0 \<le> gx'" "gx' < nxv" "0 \<le> gy" "0 \<le> gy'"
    and "nat (nxv * gy + gx) = nat (nxv * gy' + gx')"
  shows "gy = gy' \<and> gx = gx'"
proof -
  have "0 \<le> nxv * gy + gx" "0 \<le> nxv * gy' + gx'" using assms(1-6) by simp_all
  with assms(7) have "nxv * gy + gx = nxv * gy' + gx'" by linarith
  then have "gy * nxv + gx = gy' * nxv + gx'" by (simp add: mult.commute)
  from cell_index_inj[OF assms(1-4) this] show ?thesis by simp
qed

lemma ref_on_write:
  assumes r: "ref_on inp nyv nxv hyv hxv D out"
    and D: "D \<subseteq> {0 .. nyv - 1} \<times> {0 .. nxv - 1}"
    and g: "0 \<le> gy" "gy < nyv" "0 \<le> gx" "gx < nxv"
  shows "ref_on inp nyv nxv hyv hxv (insert (gy, gx) D)
           (out[nat (nxv * gy + gx) := median_v1 (pixels_v1 inp nyv nxv hyv hxv gy gx)])"
  unfolding ref_on_def
proof (intro conjI ballI)
  from r have len: "int (length out) = nyv * nxv"
    and val: "\<And>y x. (y, x) \<in> D \<Longrightarrow> out ! nat (nxv * y + x) =
       median_v1 (pixels_v1 inp nyv nxv hyv hxv y x)"
    by (auto simp: ref_on_def)
  let ?k = "nat (nxv * gy + gx)"
  let ?v = "median_v1 (pixels_v1 inp nyv nxv hyv hxv gy gx)"
  show "int (length (out[?k := ?v])) = nyv * nxv" using len by simp
  have klt: "?k < length out" using pixel_index[OF g] len by linarith
  fix c assume c: "c \<in> insert (gy, gx) D"
  obtain y x where cc: "c = (y, x)" by (cases c)
  have "out[?k := ?v] ! nat (nxv * y + x) = median_v1 (pixels_v1 inp nyv nxv hyv hxv y x)"
  proof (cases "(y, x) = (gy, gx)")
    case True
    then show ?thesis using klt by simp
  next
    case False
    with c cc have mem: "(y, x) \<in> D" by auto
    with D have yx: "0 \<le> y" "0 \<le> x" "x < nxv" by auto
    have "nat (nxv * y + x) \<noteq> ?k"
      using pixel_index_inj[OF yx(2,3) g(3,4) yx(1) g(1)] False by auto
    then show ?thesis using val[OF mem] by simp
  qed
  then show "case c of (gy', gx') \<Rightarrow> out[?k := ?v] ! nat (nxv * gy' + gx') =
      median_v1 (pixels_v1 inp nyv nxv hyv hxv gy' gx')"
    by (simp add: cc)
qed

lemma median_filterv1_ref:
  assumes len: "int (length out) = nyv * nxv"
  shows "ref_on inp nyv nxv hyv hxv ({0 .. nyv - 1} \<times> {0 .. nxv - 1})
           (median_filterv1 inp out nyv nxv hyv hxv)"
proof -
  let ?row = "\<lambda>y out. fold (\<lambda>x out.
             out[nat (nxv * y + x) := median_v1 (pixels_v1 inp nyv nxv hyv hxv y x)])
           [0 .. nxv - 1] out"
  have row: "ref_on inp nyv nxv hyv hxv (D \<union> {y} \<times> {0 .. nxv - 1}) (?row y s)"
    if s: "ref_on inp nyv nxv hyv hxv D s" and D: "D \<subseteq> {0 .. nyv - 1} \<times> {0 .. nxv - 1}"
      and y: "0 \<le> y" "y < nyv" for D y s
  proof -
    have "ref_on inp nyv nxv hyv hxv (D \<union> {y} \<times> set [0 .. nxv - 1]) (?row y s)"
    proof (rule fold_rule[where I = "\<lambda>xs t. ref_on inp nyv nxv hyv hxv (D \<union> {y} \<times> set xs) t"])
      show "ref_on inp nyv nxv hyv hxv (D \<union> {y} \<times> set []) s" using s by simp
    next
      fix xs x zs t
      assume sp: "[0..nxv - 1] = xs @ x # zs"
        and t: "ref_on inp nyv nxv hyv hxv (D \<union> {y} \<times> set xs) t"
      have "x \<in> set [0..nxv - 1]" "set xs \<subseteq> set [0..nxv - 1]" unfolding sp by auto
      then have x: "0 \<le> x" "x < nxv" and xs: "set xs \<subseteq> {0 .. nxv - 1}" by auto
      have sub: "D \<union> {y} \<times> set xs \<subseteq> {0 .. nyv - 1} \<times> {0 .. nxv - 1}" using D xs y by auto
      have e: "insert (y, x) (D \<union> {y} \<times> set xs) = D \<union> {y} \<times> set (xs @ [x])" by auto
      from ref_on_write[OF t sub y x]
      show "ref_on inp nyv nxv hyv hxv (D \<union> {y} \<times> set (xs @ [x]))
          (t[nat (nxv * y + x) := median_v1 (pixels_v1 inp nyv nxv hyv hxv y x)])"
        unfolding e .
    qed
    then show ?thesis by simp
  qed
  have "ref_on inp nyv nxv hyv hxv (set [0 .. nyv - 1] \<times> {0 .. nxv - 1}) (fold ?row [0 .. nyv - 1] out)"
  proof (rule fold_rule[where I = "\<lambda>ys t. ref_on inp nyv nxv hyv hxv (set ys \<times> {0 .. nxv - 1}) t"])
    show "ref_on inp nyv nxv hyv hxv (set [] \<times> {0 .. nxv - 1}) out" using len by (simp add: ref_on_def)
  next
    fix ys y zs t
    assume sp: "[0..nyv - 1] = ys @ y # zs"
      and t: "ref_on inp nyv nxv hyv hxv (set ys \<times> {0 .. nxv - 1}) t"
    have "y \<in> set [0..nyv - 1]" "set ys \<subseteq> set [0..nyv - 1]" unfolding sp by auto
    then have y: "0 \<le> y" "y < nyv" and ys: "set ys \<subseteq> {0 .. nyv - 1}" by auto
    have sub: "set ys \<times> {0 .. nxv - 1} \<subseteq> {0 .. nyv - 1} \<times> {0 .. nxv - 1}" using ys by auto
    have e: "set ys \<times> {0 .. nxv - 1} \<union> {y} \<times> {0 .. nxv - 1} = set (ys @ [y]) \<times> {0 .. nxv - 1}" by auto
    from row[OF t sub y] show "ref_on inp nyv nxv hyv hxv (set (ys @ [y]) \<times> {0 .. nxv - 1}) (?row y t)"
      unfolding e .
  qed
  then show ?thesis by (simp add: median_filterv1_def)
qed

lemma ref_on_unique:
  assumes a: "ref_on inp nyv nxv hyv hxv ({0 .. nyv - 1} \<times> {0 .. nxv - 1}) out1"
    and c: "ref_on inp nyv nxv hyv hxv ({0 .. nyv - 1} \<times> {0 .. nxv - 1}) out2"
    and nx: "0 < nxv"
  shows "out1 = out2"
proof (rule nth_equalityI)
  from a c have l1: "int (length out1) = nyv * nxv" and l2: "int (length out2) = nyv * nxv"
    by (simp_all add: ref_on_def)
  then show "length out1 = length out2" by linarith
  fix k assume k: "k < length out1"
  let ?gy = "int k div nxv" and ?gx = "int k mod nxv"
  have kk: "nxv * ?gy + ?gx = int k" by simp
  have gx: "0 \<le> ?gx" "?gx < nxv" using nx by simp_all
  have gy: "0 \<le> ?gy" using nx by (simp add: pos_imp_zdiv_nonneg_iff)
  have "int k < nyv * nxv" using k l1 by simp
  then have gy2: "?gy < nyv" using nx by (intro int_div_less)
  have mem: "(?gy, ?gx) \<in> {0 .. nyv - 1} \<times> {0 .. nxv - 1}" using gx gy gy2 by simp
  from a mem have "out1 ! nat (nxv * ?gy + ?gx) = median_v1 (pixels_v1 inp nyv nxv hyv hxv ?gy ?gx)"
    unfolding ref_on_def by blast
  moreover from c mem have "out2 ! nat (nxv * ?gy + ?gx) = median_v1 (pixels_v1 inp nyv nxv hyv hxv ?gy ?gx)"
    unfolding ref_on_def by blast
  ultimately show "out1 ! k = out2 ! k" unfolding kk by simp
qed

subsection \<open>The loops over the blocks\<close>

lemma block_sizes_pos:
  "0 < fst (block_sizes num_threads nyv nxv) \<and> 0 < snd (block_sizes num_threads nyv nxv)"
  if "0 < nxv" "0 < nyv"
  using that by (simp add: block_sizes_def Let_def min_def max_def)

lemma block_ref:
  assumes srt: "std_sort_spec srt"
    and dims: "0 < nxv" "0 < nyv" "0 \<le> hxv" "0 \<le> hyv"
    and rx: "0 \<le> x0iv" "x0iv \<le> x1iv" "x1iv < nxv"
    and ry: "0 \<le> y0iv" "y0iv \<le> y1iv" "y1iv < nyv"
    and len: "int (length inp) = nyv * nxv"
    and r: "ref_on inp nyv nxv hyv hxv D out" and D: "D \<subseteq> {0 .. nyv - 1} \<times> {0 .. nxv - 1}"
  shows "\<exists>out'. Option.bind (Block_new srt nyv nxv hyv hxv inp x0iv y0iv x1iv y1iv)
                   (\<lambda>block. compute_median block out) = Some out' \<and>
           ref_on inp nyv nxv hyv hxv (D \<union> {y0iv .. y1iv} \<times> {x0iv .. x1iv}) out'"
proof -
  from r have leno: "int (length out) = nyv * nxv"
    and val: "\<And>y x. (y, x) \<in> D \<Longrightarrow> out ! nat (nxv * y + x) =
       median_v1 (pixels_v1 inp nyv nxv hyv hxv y x)"
    by (auto simp: ref_on_def)
  from block_correct[OF srt dims rx ry len leno] obtain b out' where
    b: "Block_new srt nyv nxv hyv hxv inp x0iv y0iv x1iv y1iv = Some b"
       "compute_median b out = Some out'" "length out' = length out"
    and new: "\<And>gy gx. y0iv \<le> gy \<and> gy \<le> y1iv \<and> x0iv \<le> gx \<and> gx \<le> x1iv \<Longrightarrow>
               out' ! nat (nxv * gy + gx) = median_v1 (pixels_v1 inp nyv nxv hyv hxv gy gx)"
    and old: "\<And>k. (\<forall>gy gx. y0iv \<le> gy \<and> gy \<le> y1iv \<and> x0iv \<le> gx \<and> gx \<le> x1iv \<longrightarrow>
                      k \<noteq> nat (nxv * gy + gx)) \<Longrightarrow> out' ! k = out ! k"
    by blast
  have "ref_on inp nyv nxv hyv hxv (D \<union> {y0iv .. y1iv} \<times> {x0iv .. x1iv}) out'"
    unfolding ref_on_def
  proof (intro conjI ballI)
    show "int (length out') = nyv * nxv" using b(3) leno by simp
    fix c assume c: "c \<in> D \<union> {y0iv .. y1iv} \<times> {x0iv .. x1iv}"
    obtain y x where cc: "c = (y, x)" by (cases c)
    have "out' ! nat (nxv * y + x) = median_v1 (pixels_v1 inp nyv nxv hyv hxv y x)"
    proof (cases "y0iv \<le> y \<and> y \<le> y1iv \<and> x0iv \<le> x \<and> x \<le> x1iv")
      case True
      then show ?thesis by (rule new)
    next
      case False
      with c cc have mem: "(y, x) \<in> D" by auto
      with D have yx: "0 \<le> y" "0 \<le> x" "x < nxv" by auto
      have "out' ! nat (nxv * y + x) = out ! nat (nxv * y + x)"
      proof (rule old, intro allI impI)
        fix gy gx assume g: "y0iv \<le> gy \<and> gy \<le> y1iv \<and> x0iv \<le> gx \<and> gx \<le> x1iv"
        then have gg: "0 \<le> gx" "gx < nxv" "0 \<le> gy" using rx ry by simp_all
        show "nat (nxv * y + x) \<noteq> nat (nxv * gy + gx)"
          using pixel_index_inj[OF yx(2,3) gg(1,2) yx(1) gg(3)] False g by auto
      qed
      with val[OF mem] show ?thesis by simp
    qed
    then show "case c of (gy, gx) \<Rightarrow> out' ! nat (nxv * gy + gx) =
        median_v1 (pixels_v1 inp nyv nxv hyv hxv gy gx)"
      by (simp add: cc)
  qed
  with b(1,2) show ?thesis by simp
qed

lemma blocks_x_correct:
  assumes srt: "std_sort_spec srt"
    and dims: "0 < nxv" "0 < nyv" "0 \<le> hxv" "0 \<le> hyv"
    and B: "0 < Bx" "0 < By"
    and yy: "0 \<le> yy" "yy < nyv"
    and len: "int (length inp) = nyv * nxv"
  shows "0 \<le> xx \<Longrightarrow> ref_on inp nyv nxv hyv hxv D out \<Longrightarrow> D \<subseteq> {0 .. nyv - 1} \<times> {0 .. nxv - 1} \<Longrightarrow>
         \<exists>out'. blocks_x srt inp nyv nxv hyv hxv Bx By yy xx out = Some out' \<and>
           ref_on inp nyv nxv hyv hxv
             (D \<union> {yy .. min (yy + By - 1) (nyv - 1)} \<times> {xx .. nxv - 1}) out'"
proof (induction "nat (nxv - xx)" arbitrary: xx D out rule: less_induct)
  case less
  show ?case
  proof (cases "xx < nxv")
    case False
    then have "blocks_x srt inp nyv nxv hyv hxv Bx By yy xx out = Some out"
      by (subst blocks_x.simps) simp
    moreover have "D \<union> {yy .. min (yy + By - 1) (nyv - 1)} \<times> {xx .. nxv - 1} = D"
      using False by auto
    ultimately show ?thesis using less.prems(2) by simp
  next
    case True
    let ?x1 = "min (xx + Bx - 1) (nxv - 1)" and ?y1 = "min (yy + By - 1) (nyv - 1)"
    have rx: "0 \<le> xx" "xx \<le> ?x1" "?x1 < nxv" using less.prems(1) True B by simp_all
    have ry: "0 \<le> yy" "yy \<le> ?y1" "?y1 < nyv" using yy B by simp_all
    from block_ref[OF srt dims rx ry len less.prems(2,3)] obtain out1 where
      o1: "Option.bind (Block_new srt nyv nxv hyv hxv inp xx yy ?x1 ?y1)
             (\<lambda>block. compute_median block out) = Some out1"
          "ref_on inp nyv nxv hyv hxv (D \<union> {yy .. ?y1} \<times> {xx .. ?x1}) out1"
      by blast
    have sub: "D \<union> {yy .. ?y1} \<times> {xx .. ?x1} \<subseteq> {0 .. nyv - 1} \<times> {0 .. nxv - 1}"
      using less.prems(3) rx ry by auto
    have meas: "nat (nxv - (xx + Bx)) < nat (nxv - xx)" using True B by simp
    have x0: "0 \<le> xx + Bx" using less.prems(1) B by simp
    from less.hyps[OF meas x0 o1(2) sub] obtain out' where
      o': "blocks_x srt inp nyv nxv hyv hxv Bx By yy (xx + Bx) out1 = Some out'"
          "ref_on inp nyv nxv hyv hxv
             (D \<union> {yy .. ?y1} \<times> {xx .. ?x1} \<union> {yy .. ?y1} \<times> {xx + Bx .. nxv - 1}) out'"
      by blast
    have run: "blocks_x srt inp nyv nxv hyv hxv Bx By yy xx out = Some out'"
      by (subst blocks_x.simps) (simp only: True if_True o1(1) Option.bind.simps o'(1))
    have "D \<union> {yy .. ?y1} \<times> {xx .. ?x1} \<union> {yy .. ?y1} \<times> {xx + Bx .. nxv - 1} =
          D \<union> {yy .. ?y1} \<times> {xx .. nxv - 1}"
      using B by auto
    with o'(2) run show ?thesis by simp
  qed
qed

lemma blocks_y_correct:
  assumes srt: "std_sort_spec srt"
    and dims: "0 < nxv" "0 < nyv" "0 \<le> hxv" "0 \<le> hyv"
    and B: "0 < Bx" "0 < By"
    and len: "int (length inp) = nyv * nxv"
  shows "0 \<le> yy \<Longrightarrow> ref_on inp nyv nxv hyv hxv D out \<Longrightarrow> D \<subseteq> {0 .. nyv - 1} \<times> {0 .. nxv - 1} \<Longrightarrow>
         \<exists>out'. blocks_y srt inp nyv nxv hyv hxv Bx By yy out = Some out' \<and>
           ref_on inp nyv nxv hyv hxv (D \<union> {yy .. nyv - 1} \<times> {0 .. nxv - 1}) out'"
proof (induction "nat (nyv - yy)" arbitrary: yy D out rule: less_induct)
  case less
  show ?case
  proof (cases "yy < nyv")
    case False
    then have "blocks_y srt inp nyv nxv hyv hxv Bx By yy out = Some out"
      by (subst blocks_y.simps) simp
    moreover have "D \<union> {yy .. nyv - 1} \<times> {0 .. nxv - 1} = D"
      using False by auto
    ultimately show ?thesis using less.prems(2) by simp
  next
    case True
    let ?y1 = "min (yy + By - 1) (nyv - 1)"
    have yy: "0 \<le> yy" "yy < nyv" using less.prems(1) True by simp_all
    have z: "(0::int) \<le> 0" by simp
    from blocks_x_correct[OF srt dims B yy len z less.prems(2,3)] obtain out1 where
      o1: "blocks_x srt inp nyv nxv hyv hxv Bx By yy 0 out = Some out1"
          "ref_on inp nyv nxv hyv hxv (D \<union> {yy .. ?y1} \<times> {0 .. nxv - 1}) out1"
      by blast
    have sub: "D \<union> {yy .. ?y1} \<times> {0 .. nxv - 1} \<subseteq> {0 .. nyv - 1} \<times> {0 .. nxv - 1}"
      using less.prems(3) yy by auto
    have meas: "nat (nyv - (yy + By)) < nat (nyv - yy)" using True B by simp
    have y0: "0 \<le> yy + By" using less.prems(1) B by simp
    from less.hyps[OF meas y0 o1(2) sub] obtain out' where
      o': "blocks_y srt inp nyv nxv hyv hxv Bx By (yy + By) out1 = Some out'"
          "ref_on inp nyv nxv hyv hxv
             (D \<union> {yy .. ?y1} \<times> {0 .. nxv - 1} \<union> {yy + By .. nyv - 1} \<times> {0 .. nxv - 1}) out'"
      by blast
    have run: "blocks_y srt inp nyv nxv hyv hxv Bx By yy out = Some out'"
      by (subst blocks_y.simps) (simp only: True if_True o1(1) Option.bind.simps o'(1))
    have "D \<union> {yy .. ?y1} \<times> {0 .. nxv - 1} \<union> {yy + By .. nyv - 1} \<times> {0 .. nxv - 1} =
          D \<union> {yy .. nyv - 1} \<times> {0 .. nxv - 1}"
      using B by auto
    with o'(2) run show ?thesis by simp
  qed
qed

subsection \<open>The filter\<close>

lemma median_filterv4_ref:
  assumes srt: "std_sort_spec srt"
    and dims: "0 < nxv" "0 < nyv" "0 \<le> hxv" "0 \<le> hyv"
    and len: "int (length inp) = nyv * nxv" and leno: "int (length out) = nyv * nxv"
  shows "median_filterv4 srt num_threads inp out nyv nxv hyv hxv =
           Some (median_filterv1 inp out nyv nxv hyv hxv)"
proof -
  obtain Bx By where bs: "block_sizes num_threads nyv nxv = (Bx, By)"
    by (cases "block_sizes num_threads nyv nxv")
  with block_sizes_pos[OF dims(1,2), of num_threads] have B: "0 < Bx" "0 < By" by simp_all
  have r0: "ref_on inp nyv nxv hyv hxv {} out" using leno by (simp add: ref_on_def)
  have z: "(0::int) \<le> 0" by simp
  from blocks_y_correct[OF srt dims B len z r0] obtain out' where
    o: "blocks_y srt inp nyv nxv hyv hxv Bx By 0 out = Some out'"
       "ref_on inp nyv nxv hyv hxv ({} \<union> {0 .. nyv - 1} \<times> {0 .. nxv - 1}) out'"
    by blast
  have "out' = median_filterv1 inp out nyv nxv hyv hxv"
    by (rule ref_on_unique[OF _ median_filterv1_ref[OF leno] dims(1)]) (use o(2) in simp)
  with o(1) bs show ?thesis by (simp add: median_filterv4_def)
qed

subsection \<open>The cardinality seen by \<open>get_median\<close>\<close>

lemma window_image:
  assumes geo: "geom_ok b" and x: "x0 b \<le> x" "x \<le> x1 b" and y: "y0 b \<le> y" "y \<le> y1 b"
  shows "(\<lambda>(i, j). (j + y0b b, i + x0b b)) ` window b x y =
         {max (y + y0b b - hy b) 0 .. min (y + y0b b + hy b + 1) (ny b) - 1} \<times>
         {max (x + x0b b - hx b) 0 .. min (x + x0b b + hx b + 1) (nx b) - 1}"
proof (intro set_eqI iffI)
  fix c assume "c \<in> (\<lambda>(i, j). (j + y0b b, i + x0b b)) ` window b x y"
  then obtain i j where "c = (j + y0b b, i + x0b b)" "(i, j) \<in> window b x y" by auto
  then show "c \<in> {max (y + y0b b - hy b) 0 .. min (y + y0b b + hy b + 1) (ny b) - 1} \<times>
         {max (x + x0b b - hx b) 0 .. min (x + x0b b + hx b + 1) (nx b) - 1}"
    using window_global[OF geo x y, of i j] by simp
next
  fix c assume c: "c \<in> {max (y + y0b b - hy b) 0 .. min (y + y0b b + hy b + 1) (ny b) - 1} \<times>
         {max (x + x0b b - hx b) 0 .. min (x + x0b b + hx b + 1) (nx b) - 1}"
  obtain gy gx where cc: "c = (gy, gx)" by (cases c)
  have "(gx - x0b b, gy - y0b b) \<in> window b x y"
    using window_global[OF geo x y, of "gx - x0b b" "gy - y0b b"] c cc by simp
  then have "(\<lambda>(i, j). (j + y0b b, i + x0b b)) (gx - x0b b, gy - y0b b) \<in>
      (\<lambda>(i, j). (j + y0b b, i + x0b b)) ` window b x y" by (rule imageI)
  then show "c \<in> (\<lambda>(i, j). (j + y0b b, i + x0b b)) ` window b x y" using cc by simp
qed

lemma kernel_cells_set:
  "kernel_cells_in_image nyv nxv hyv hxv gy gx =
     int (card ({max (gy - hyv) 0 .. min (gy + hyv + 1) nyv - 1} \<times>
                {max (gx - hxv) 0 .. min (gx + hxv + 1) nxv - 1}))"
proof -
  let ?P = "\<lambda>(i, j). 0 \<le> i \<and> i < nyv \<and> 0 \<le> j \<and> j < nxv"
  let ?L = "filter ?P (List.product [gy - hyv .. gy + hyv] [gx - hxv .. gx + hxv])"
  have d: "distinct ?L" by (intro distinct_filter distinct_product) simp_all
  have "set ?L = {max (gy - hyv) 0 .. min (gy + hyv + 1) nyv - 1} \<times>
                {max (gx - hxv) 0 .. min (gx + hxv + 1) nxv - 1}"
    by auto
  with distinct_card[OF d] show ?thesis by (simp add: kernel_cells_in_image_def)
qed

lemma kernel_cells_window:
  assumes geo: "geom_ok b" and x: "x0 b \<le> x" "x \<le> x1 b" and y: "y0 b \<le> y" "y \<le> y1 b"
  shows "kernel_cells_in_image (ny b) (nx b) (hy b) (hx b) (y + y0b b) (x + x0b b) =
         int (card (window b x y))"
proof -
  have inj: "inj_on (\<lambda>(i, j). (j + y0b b, i + x0b b)) (window b x y)"
    by (auto simp: inj_on_def)
  show ?thesis
    unfolding kernel_cells_set window_image[OF geo x y, symmetric]
    by (simp add: card_image[OF inj])
qed

lemma kernel_cells_full:
  assumes "0 \<le> hyv" "0 \<le> hxv" "hyv \<le> gy" "gy + hyv < nyv" "hxv \<le> gx" "gx + hxv < nxv"
  shows "kernel_cells_in_image nyv nxv hyv hxv gy gx = (2 * hyv + 1) * (2 * hxv + 1)"
proof -
  have m: "max (gy - hyv) 0 = gy - hyv" "min (gy + hyv + 1) nyv - 1 = gy + hyv"
    "max (gx - hxv) 0 = gx - hxv" "min (gx + hxv + 1) nxv - 1 = gx + hxv"
    using assms by simp_all
  have "card ({gy - hyv .. gy + hyv} \<times> {gx - hxv .. gx + hxv}) =
      nat (2 * hyv + 1) * nat (2 * hxv + 1)"
    using assms(1,2) by (simp add: card_cartesian_product)
  then have "int (card ({gy - hyv .. gy + hyv} \<times> {gx - hxv .. gx + hxv})) =
      (2 * hyv + 1) * (2 * hxv + 1)"
    using assms(1,2) by simp
  then show ?thesis unfolding kernel_cells_set m .
qed

lemma probe_emit_ok:
  assumes inv0: "binv inp b0"
  shows "emit_ok inp b0 probe (probe_ok b0)"
  unfolding emit_ok_def
proof (intro allI impI)
  fix b x y tr S
  assume a: "binv inp b \<and> frame b0 b \<and> win b = window b0 x y \<and>
        x0 b0 \<le> x \<and> x \<le> x1 b0 \<and> y0 b0 \<le> y \<and> y \<le> y1 b0 \<and> probe_ok b0 S tr"
  then have inv: "binv inp b" and fr: "frame b0 b" and w: "win b = window b0 x y"
    and x: "x0 b0 \<le> x" "x \<le> x1 b0" and y: "y0 b0 \<le> y" "y \<le> y1 b0"
    and q: "probe_ok b0 S tr" by simp_all
  from inv0 have geo: "geom_ok b0" by (simp add: binv_def)
  let ?xs = "pixels_v1 inp (ny b0) (nx b0) (hy b0) (hx b0) (y + y0b b0) (x + x0b b0)"
  have ne: "win b \<noteq> {}" unfolding w using self_in_window[OF geo x y] by auto
  have xs: "mset ?xs = image_mset (cell_val inp b) (mset_set (win b))"
    unfolding w cell_val_frame[OF fr] by (rule pixels_window[OF geo x y])
  from get_median_correct[OF inv ne xs] obtain b' where
    g: "get_median b = Some (median_v1 ?xs, b')" "frame b b'" "buff b' = buff b" "binv inp b'"
    by blast
  let ?s = "fst (psum b) + snd (psum b)"
  have s: "?s = int (card (window b0 x y))" using win_card(1)[OF inv] w by simp
  have run: "probe b x y tr = Some (b', tr @ [(x, y, ?s)])"
    unfolding probe_def by (simp add: g(1))
  have ok: "probe_ok b0 (insert (x, y) S) (tr @ [(x, y, ?s)])"
    using q x y s unfolding probe_ok_def by auto
  have "win b' = win b" by (rule win_frame_buff[OF g(2,3)])
  with run g(2,4) ok
  show "\<exists>b' out'. probe b x y tr = Some (b', out') \<and> frame b b' \<and> binv inp b' \<and>
          win b' = win b \<and> probe_ok b0 (insert (x, y) S) out'"
    by blast
qed

lemma probe_traverse:
  assumes srt: "std_sort_spec srt"
    and dims: "0 < nxv" "0 < nyv" "0 \<le> hxv" "0 \<le> hyv"
    and rx: "0 \<le> x0iv" "x0iv \<le> x1iv" "x1iv < nxv"
    and ry: "0 \<le> y0iv" "y0iv \<le> y1iv" "y1iv < nyv"
    and len: "int (length inp) = nyv * nxv"
    and new: "Block_new srt nyv nxv hyv hxv inp x0iv y0iv x1iv y1iv = Some b"
  shows "\<exists>b' tr. traverse probe b [] = Some (b', tr) \<and>
           (\<lambda>(x, y, s). (x + x0b b, y + y0b b)) ` set tr = {x0iv .. x1iv} \<times> {y0iv .. y1iv} \<and>
           (\<forall>(x, y, s) \<in> set tr.
              s = kernel_cells_in_image nyv nxv hyv hxv (y + y0b b) (x + x0b b) \<and> s \<noteq> 0 \<and>
              (hyv \<le> y + y0b b \<and> y + y0b b + hyv < nyv \<and> hxv \<le> x + x0b b \<and> x + x0b b + hxv < nxv \<longrightarrow>
                 s = (2 * hyv + 1) * (2 * hxv + 1)))"
proof -
  from Block_new_correct[OF srt dims rx ry len] new have
    b: "geom_ok b" "tables_ok inp b" "psum_inv b" "\<forall>r. \<not> bit_at (buff b) r"
    and f: "nx b = nxv" "ny b = nyv" "hx b = hxv" "hy b = hyv"
       "x0i b = x0iv" "x1i b = x1iv" "y0i b = y0iv" "y1i b = y1iv"
    by auto
  have inv: "binv inp b" unfolding binv_def using b len f by simp
  have q0: "probe_ok b {} []" by (simp add: probe_ok_def)
  let ?I = "{(i, j). x0 b \<le> i \<and> i \<le> x1 b \<and> y0 b \<le> j \<and> j \<le> y1 b}"
  from traverse_correct[OF probe_emit_ok[OF inv] inv empty_win[OF b(4)] q0] obtain b' tr where
    t: "traverse probe b [] = Some (b', tr)" "probe_ok b ({} \<union> ?I) tr"
    by blast
  from t(2) have pos: "(\<lambda>(x, y, s). (x, y)) ` set tr = ?I"
    and ent: "\<And>x y s. (x, y, s) \<in> set tr \<Longrightarrow>
        x0 b \<le> x \<and> x \<le> x1 b \<and> y0 b \<le> y \<and> y \<le> y1 b \<and> s = int (card (window b x y))"
    unfolding probe_ok_def by auto
  from b(1) have loc: "x0 b = x0iv - x0b b" "y0 b = y0iv - y0b b" "x1 b = x1iv - x0b b"
      "y1 b = y1iv - y0b b"
    by (simp_all add: geom_ok_def f)
  have "(\<lambda>(x, y, s). (x + x0b b, y + y0b b)) ` set tr =
      (\<lambda>(x, y). (x + x0b b, y + y0b b)) ` ((\<lambda>(x, y, s). (x, y)) ` set tr)"
    by (auto simp: image_image case_prod_beta)
  also have "\<dots> = (\<lambda>(x, y). (x + x0b b, y + y0b b)) ` ?I" unfolding pos ..
  also have "\<dots> = {x0iv .. x1iv} \<times> {y0iv .. y1iv}"
  proof (intro set_eqI iffI)
    fix c assume "c \<in> {x0iv .. x1iv} \<times> {y0iv .. y1iv}"
    then obtain gx gy where c: "c = (gx, gy)" "x0iv \<le> gx" "gx \<le> x1iv" "y0iv \<le> gy" "gy \<le> y1iv"
      by auto
    have "(gx - x0b b, gy - y0b b) \<in> ?I" using c loc by simp
    then have "(\<lambda>(x, y). (x + x0b b, y + y0b b)) (gx - x0b b, gy - y0b b) \<in>
        (\<lambda>(x, y). (x + x0b b, y + y0b b)) ` ?I" by (rule imageI)
    then show "c \<in> (\<lambda>(x, y). (x + x0b b, y + y0b b)) ` ?I" using c(1) by simp
  qed (use loc in auto)
  finally have cover: "(\<lambda>(x, y, s). (x + x0b b, y + y0b b)) ` set tr = {x0iv .. x1iv} \<times> {y0iv .. y1iv}" .
  have each: "s = kernel_cells_in_image nyv nxv hyv hxv (y + y0b b) (x + x0b b) \<and> s \<noteq> 0 \<and>
              (hyv \<le> y + y0b b \<and> y + y0b b + hyv < nyv \<and> hxv \<le> x + x0b b \<and> x + x0b b + hxv < nxv \<longrightarrow>
                 s = (2 * hyv + 1) * (2 * hxv + 1))"
    if m: "(x, y, s) \<in> set tr" for x y s
  proof -
    from ent[OF m] have x: "x0 b \<le> x" "x \<le> x1 b" and y: "y0 b \<le> y" "y \<le> y1 b"
      and s: "s = int (card (window b x y))" by simp_all
    have k: "s = kernel_cells_in_image nyv nxv hyv hxv (y + y0b b) (x + x0b b)"
      using kernel_cells_window[OF b(1) x y] s by (simp add: f)
    have "finite (window b x y)"
      by (rule finite_subset[OF _ finite_tile[of b]]) (auto simp: window_def)
    then have "card (window b x y) > 0" using self_in_window[OF b(1) x y] by (auto simp: card_gt_0_iff)
    then have nz: "s \<noteq> 0" using s by simp
    have full: "s = (2 * hyv + 1) * (2 * hxv + 1)"
      if "hyv \<le> y + y0b b \<and> y + y0b b + hyv < nyv \<and> hxv \<le> x + x0b b \<and> x + x0b b + hxv < nxv"
      unfolding k using that dims by (intro kernel_cells_full) simp_all
    show ?thesis using k nz full by blast
  qed
  show ?thesis using t(1) cover each by blast
qed

subsection \<open>\<open>get_median\<close> in terms of \<open>select\<close>\<close>


subsection \<open>The histogram median\<close>







section \<open>The claims\<close>

lemma sort_key_fst_spec: "std_sort_spec (sort_key fst)"
  by (simp add: std_sort_spec_def)

lemma example_reference:
  "median_filterv1 [1, 2, 3, 4, 5, 6, 7, 8, 9] (replicate 9 0) 3 3 1 1 =
     [3, 7 / 2, 4, 9 / 2, 5, 11 / 2, 6, 13 / 2, 7]"
  by code_simp




text \<open>
  C3. In a block whose running counts are consistent with the bitmap, \<open>search k\<close> with
  \<open>0 \<le> k < psum[0] + psum[1]\<close> returns the rank of the k-th set bit, counted from 0: the
  bit of the returned rank is set, exactly \<open>k\<close> set bits lie below it, and the bitmap is
  unchanged. The word-level step obeys its contract: for a word \<open>w\<close> with at least
  \<open>n + 1\<close> set bits, deposit and count-trailing-zeros give a position \<open>j < 64\<close> whose bit
  is set in \<open>w\<close> with exactly \<open>n\<close> set bits below it.
\<close>

theorem search_selects_kth_set_bit:
  "(psum_inv b \<and> 0 \<le> k \<and> k < fst (psum b) + snd (psum b) \<longrightarrow>
      (\<exists>r b'. search b k = Some (r, b') \<and> buff b' = buff b \<and> 0 \<le> r \<and>
               r = int (set_ranks (buff b) ! nat k) \<and> bit_at (buff b) (nat r) \<and>
               int (length (filter (\<lambda>i. i < nat r) (set_ranks (buff b)))) = k)) \<and>
   (int n < popcountll w \<longrightarrow>
      (\<exists>j. ctzll (pdep_u64 (push_bit n 1) w) = Some (int j) \<and> j < 64 \<and> bit w j \<and>
           length (filter (bit w) [0..<j]) = n))"
proof (intro conjI impI)
  assume a: "psum_inv b \<and> 0 \<le> k \<and> k < fst (psum b) + snd (psum b)"
  then have inv: "psum_inv b" and k: "0 \<le> k" "k < fst (psum b) + snd (psum b)" by simp_all
  from search_correct[OF inv k] obtain b' where
    b': "search b k = Some (int (set_ranks (buff b) ! nat k), b')"
        "b' = b\<lparr>p := p b', psum := psum b'\<rparr>" "nat k < length (set_ranks (buff b))"
    by blast
  let ?r = "set_ranks (buff b) ! nat k"
  have "buff b' = buff b" by (subst b'(2)) simp
  moreover have "bit_at (buff b) ?r"
    using nth_mem[OF b'(3)] by (simp add: set_set_ranks)
  moreover have "int (length (filter (\<lambda>i. i < ?r) (set_ranks (buff b)))) = k"
    using filter_less_set_ranks[OF b'(3)] k(1) by simp
  ultimately show "\<exists>r b'. search b k = Some (r, b') \<and> buff b' = buff b \<and> 0 \<le> r \<and>
               r = int (set_ranks (buff b) ! nat k) \<and> bit_at (buff b) (nat r) \<and>
               int (length (filter (\<lambda>i. i < nat r) (set_ranks (buff b)))) = k"
    using b'(1) by simp
next
  assume "int n < popcountll w"
  from select_word[OF this] show "\<exists>j. ctzll (pdep_u64 (push_bit n 1) w) = Some (int j) \<and>
      j < 64 \<and> bit w j \<and> length (filter (bit w) [0..<j]) = n"
    by (simp add: length_filter_upt)
qed

lemma example_block_psum_inv: "psum_inv example_block"
  by code_simp

lemma example_set_ranks: "set_ranks [44] = [2, 3, 5]"
  by code_simp

lemma example_popcount: "popcountll 44 = 3"
  by code_simp

theorem search_selects_kth_set_bit_witness:
  "psum_inv example_block \<and>
   (\<exists>b'. search example_block 1 = Some (3, b') \<and> buff b' = [44]) \<and>
   (\<exists>j. ctzll (pdep_u64 (push_bit 1 1) 44) = Some (int j) \<and> j < 64 \<and> bit (44 :: u64) j \<and>
        length (filter (bit (44 :: u64)) [0..<j]) = 1)"
proof -
  have h: "psum_inv example_block \<and> 0 \<le> (1::int) \<and>
           1 < fst (psum example_block) + snd (psum example_block)"
    by (simp add: example_block_psum_inv) (simp add: example_block_def)
  have w: "int 1 < popcountll 44" by (simp add: example_popcount)
  have bf: "buff example_block = [44]" by (simp add: example_block_def)
  from search_selects_kth_set_bit[of example_block 1 1 44] h w
  have "(\<exists>r b'. search example_block 1 = Some (r, b') \<and> buff b' = buff example_block \<and>
            r = int (set_ranks (buff example_block) ! nat 1)) \<and>
        (\<exists>j. ctzll (pdep_u64 (push_bit 1 1) 44) = Some (int j) \<and> j < 64 \<and> bit (44 :: u64) j \<and>
            length (filter (bit (44 :: u64)) [0..<j]) = 1)"
    by blast
  then show ?thesis using h by (auto simp: example_set_ranks bf)
qed

text \<open>
  C4. The bookkeeping predicate (\<open>psum[0]\<close> is the number of set bits in the words below
  \<open>p\<close>, \<open>psum[0] + psum[1]\<close> the number of set bits of the bitmap, \<open>0 \<le> p \<le> words\<close>) holds
  of every constructed block, and \<open>add_rank\<close> on a cell whose bit is clear, \<open>remove_rank\<close>
  on a cell whose bit is set and \<open>search\<close> with \<open>0 \<le> k < psum[0] + psum[1]\<close> return a
  block that satisfies it again.
\<close>

theorem psum_bookkeeping_invariant:
  "(Block_new srt nyv nxv hyv hxv inp x0iv y0iv x1iv y1iv = Some b0 \<longrightarrow> psum_inv b0) \<and>
   (psum_inv b \<and> (in_tile b ix jy \<longrightarrow> rank_ok b ix jy \<and> \<not> cell_bit b ix jy) \<longrightarrow>
      (\<exists>b'. add_rank b ix jy = Some b' \<and> psum_inv b')) \<and>
   (psum_inv b \<and> (in_tile b ix jy \<longrightarrow> rank_ok b ix jy \<and> cell_bit b ix jy) \<longrightarrow>
      (\<exists>b'. remove_rank b ix jy = Some b' \<and> psum_inv b')) \<and>
   (psum_inv b \<and> 0 \<le> k \<and> k < fst (psum b) + snd (psum b) \<longrightarrow>
      (\<exists>r b'. search b k = Some (r, b') \<and> psum_inv b'))"
proof (intro conjI impI)
  assume "Block_new srt nyv nxv hyv hxv inp x0iv y0iv x1iv y1iv = Some b0"
  then show "psum_inv b0" by (rule Block_new_psum_inv)
next
  assume "psum_inv b \<and> (in_tile b ix jy \<longrightarrow> rank_ok b ix jy \<and> \<not> cell_bit b ix jy)"
  then show "\<exists>b'. add_rank b ix jy = Some b' \<and> psum_inv b'"
    using add_rank_psum_inv[of b ix jy] by blast
next
  assume "psum_inv b \<and> (in_tile b ix jy \<longrightarrow> rank_ok b ix jy \<and> cell_bit b ix jy)"
  then show "\<exists>b'. remove_rank b ix jy = Some b' \<and> psum_inv b'"
    using remove_rank_psum_inv[of b ix jy] by blast
next
  assume "psum_inv b \<and> 0 \<le> k \<and> k < fst (psum b) + snd (psum b)"
  then show "\<exists>r b'. search b k = Some (r, b') \<and> psum_inv b'"
    using search_correct[of b k] by blast
qed

lemma example_Block_new:
  "Block_new (sort_key fst) 3 3 1 1 [1, 2, 3, 4, 5, 6, 7, 8, 9] 0 0 2 2 =
     Some (example_block\<lparr>psum := (0, 0), buff := [0]\<rparr>)"
  by code_simp

lemma example_add_cell:
  "in_tile example_block 0 0 \<and> rank_ok example_block 0 0 \<and> \<not> cell_bit example_block 0 0"
  by code_simp

lemma example_remove_cell:
  "in_tile example_block 2 0 \<and> rank_ok example_block 2 0 \<and> cell_bit example_block 2 0"
  by code_simp

theorem psum_bookkeeping_invariant_witness:
  "psum_inv example_block \<and>
   psum_inv (example_block\<lparr>psum := (0, 0), buff := [0]\<rparr>) \<and>
   (\<exists>b'. add_rank example_block 0 0 = Some b' \<and> psum_inv b') \<and>
   (\<exists>b'. remove_rank example_block 2 0 = Some b' \<and> psum_inv b') \<and>
   (\<exists>r b'. search example_block 1 = Some (r, b') \<and> psum_inv b')"
proof -
  have k: "0 \<le> (1::int) \<and> 1 < fst (psum example_block) + snd (psum example_block)"
    by (simp add: example_block_def)
  note inv = example_block_psum_inv
  from psum_bookkeeping_invariant[of "sort_key fst" 3 3 1 1 "[1, 2, 3, 4, 5, 6, 7, 8, 9]" 0 0 2 2
      "example_block\<lparr>psum := (0, 0), buff := [0]\<rparr>" example_block 0 0 1]
    example_Block_new example_add_cell inv k
  have a: "psum_inv (example_block\<lparr>psum := (0, 0), buff := [0]\<rparr>)"
    "\<exists>b'. add_rank example_block 0 0 = Some b' \<and> psum_inv b'"
    "\<exists>r b'. search example_block 1 = Some (r, b') \<and> psum_inv b'"
    by blast+
  from psum_bookkeeping_invariant[of "sort_key fst" 3 3 1 1 "[1, 2, 3, 4, 5, 6, 7, 8, 9]" 0 0 2 2
      "example_block\<lparr>psum := (0, 0), buff := [0]\<rparr>" example_block 2 0 1]
    example_remove_cell inv
  have r: "\<exists>b'. remove_rank example_block 2 0 = Some b' \<and> psum_inv b'"
    by blast
  show ?thesis using inv a r by blast
qed


lemma median_v1_single: "median_v1 [v] = v"
  by (simp add: median_v1_def sdiv_nonneg smod_nonneg)

lemma pixels_v1_identity:
  assumes "0 \<le> gy" "gy < nyv" "0 \<le> gx" "gx < nxv"
  shows "pixels_v1 inp nyv nxv 0 0 gy gx = [inp ! nat (nxv * gy + gx)]"
proof -
  have "max gy 0 = gy" "min (gy + 1) nyv - 1 = gy" "max gx 0 = gx" "min (gx + 1) nxv - 1 = gx"
    using assms by simp_all
  then show ?thesis by (simp add: pixels_v1_def)
qed

lemma median_filterv1_identity:
  assumes "0 < nxv" "int (length inp) = nyv * nxv" "int (length out) = nyv * nxv"
  shows "median_filterv1 inp out nyv nxv 0 0 = inp"
proof (rule ref_on_unique[OF median_filterv1_ref[OF assms(3)] _ assms(1)])
  show "ref_on inp nyv nxv 0 0 ({0..nyv - 1} \<times> {0..nxv - 1}) inp"
    unfolding ref_on_def using assms(2)
    by (auto simp: pixels_v1_identity median_v1_single)
qed

text \<open>
  C8. For every image of height and width at least 1, the filter run with
  \<open>hy = hx = 0\<close> returns the input image as its output.
\<close>

theorem identity_kernel:
  assumes "std_sort_spec srt" "0 < nxv" "0 < nyv"
    and "int (length inp) = nyv * nxv" "int (length out) = nyv * nxv"
  shows "median_filterv4 srt num_threads inp out nyv nxv 0 0 = Some inp"
proof -
  have "median_filterv4 srt num_threads inp out nyv nxv 0 0 =
      Some (median_filterv1 inp out nyv nxv 0 0)"
    by (rule median_filterv4_ref[OF assms(1,2,3) _ _ assms(4,5)]) simp_all
  then show ?thesis by (simp add: median_filterv1_identity[OF assms(2,4,5)])
qed

theorem identity_kernel_witness:
  "median_filterv4 (sort_key fst) 4
     [1, 2, 3, 4, 5, 6, 7, 8, 9, 10, 11, 12, 13, 14, 15, 16] (replicate 16 0) 4 4 0 0 =
   Some [1, 2, 3, 4, 5, 6, 7, 8, 9, 10, 11, 12, 13, 14, 15, 16]"
  using identity_kernel[of "sort_key fst" 4 4
      "[1, 2, 3, 4, 5, 6, 7, 8, 9, 10, 11, 12, 13, 14, 15, 16]" "replicate 16 0" 4]
  by (simp add: sort_key_fst_spec)







lemma example_probe_trace:
  "map_option snd (traverse probe (example_block\<lparr>psum := (0, 0), buff := [0]\<rparr>) []) =
     Some [(0, 0, 4), (0, 1, 6), (0, 2, 4), (1, 2, 6), (1, 1, 9), (1, 0, 6),
           (2, 0, 4), (2, 1, 6), (2, 2, 4)]"
  by code_simp

text \<open>
  C2. In the traversal of a tile, immediately before every call of \<open>get_median\<close> the
  cardinality \<open>psum[0] + psum[1]\<close> equals the number of kernel cells of the current output
  pixel that lie inside the image; it is \<open>(2 hy + 1) (2 hx + 1)\<close> for a pixel whose kernel
  lies inside the image, and it is never 0. The calls are observed by running the
  traversal with the action \<open>probe\<close>, which records \<open>(x, y, psum[0] + psum[1])\<close> at each
  call; the recorded pixels are exactly the pixels of the interior rectangle.
\<close>

theorem cardinality_before_median:
  assumes "std_sort_spec srt" "0 < nxv" "0 < nyv" "0 \<le> hxv" "0 \<le> hyv"
    and "0 \<le> x0iv" "x0iv \<le> x1iv" "x1iv < nxv" "0 \<le> y0iv" "y0iv \<le> y1iv" "y1iv < nyv"
    and "int (length inp) = nyv * nxv"
    and "Block_new srt nyv nxv hyv hxv inp x0iv y0iv x1iv y1iv = Some b"
  shows "\<exists>b' tr. traverse probe b [] = Some (b', tr) \<and>
           (\<lambda>(x, y, s). (x + x0b b, y + y0b b)) ` set tr = {x0iv .. x1iv} \<times> {y0iv .. y1iv} \<and>
           (\<forall>(x, y, s) \<in> set tr.
              s = kernel_cells_in_image nyv nxv hyv hxv (y + y0b b) (x + x0b b) \<and> s \<noteq> 0 \<and>
              (hyv \<le> y + y0b b \<and> y + y0b b + hyv < nyv \<and> hxv \<le> x + x0b b \<and> x + x0b b + hxv < nxv \<longrightarrow>
                 s = (2 * hyv + 1) * (2 * hxv + 1)))"
  using assms by (rule probe_traverse)

theorem cardinality_before_median_witness:
  "\<exists>b' tr. traverse probe (example_block\<lparr>psum := (0, 0), buff := [0]\<rparr>) [] = Some (b', tr) \<and>
     tr = [(0, 0, 4), (0, 1, 6), (0, 2, 4), (1, 2, 6), (1, 1, 9), (1, 0, 6),
           (2, 0, 4), (2, 1, 6), (2, 2, 4)] \<and>
     (\<lambda>(x, y, s). (x, y)) ` set tr = {0 .. 2} \<times> {0 .. 2} \<and>
     (\<forall>(x, y, s) \<in> set tr.
        s = kernel_cells_in_image 3 3 1 1 y x \<and> s \<noteq> 0 \<and>
        (1 \<le> y \<and> y + 1 < 3 \<and> 1 \<le> x \<and> x + 1 < 3 \<longrightarrow> s = 9))"
proof -
  let ?b = "example_block\<lparr>psum := (0, 0), buff := [0]\<rparr>"
  have z: "x0b ?b = 0" "y0b ?b = 0" by (simp_all add: example_block_def)
  from cardinality_before_median[of "sort_key fst" 3 3 1 1 0 2 0 2 "[1, 2, 3, 4, 5, 6, 7, 8, 9]" ?b]
    example_Block_new
  obtain b' tr where t: "traverse probe ?b [] = Some (b', tr)"
    "(\<lambda>(x, y, s). (x + x0b ?b, y + y0b ?b)) ` set tr = {0 .. 2} \<times> {0 .. 2}"
    "\<forall>(x, y, s) \<in> set tr.
        s = kernel_cells_in_image 3 3 1 1 (y + y0b ?b) (x + x0b ?b) \<and> s \<noteq> 0 \<and>
        (1 \<le> y + y0b ?b \<and> y + y0b ?b + 1 < 3 \<and> 1 \<le> x + x0b ?b \<and> x + x0b ?b + 1 < 3 \<longrightarrow>
           s = (2 * 1 + 1) * (2 * 1 + 1))"
    by (auto simp: sort_key_fst_spec)
  from t(1) example_probe_trace have
    "tr = [(0, 0, 4), (0, 1, 6), (0, 2, 4), (1, 2, 6), (1, 1, 9), (1, 0, 6),
           (2, 0, 4), (2, 1, 6), (2, 2, 4)]" by simp
  moreover from t(2) have "(\<lambda>(x, y, s). (x, y)) ` set tr = {0 .. 2} \<times> {0 .. 2}"
    unfolding z by simp
  moreover from t(3) have "\<forall>(x, y, s) \<in> set tr.
        s = kernel_cells_in_image 3 3 1 1 y x \<and> s \<noteq> 0 \<and>
        (1 \<le> y \<and> y + 1 < 3 \<and> 1 \<le> x \<and> x + 1 < 3 \<longrightarrow> s = 9)"
    unfolding z by simp
  ultimately show ?thesis using t(1) by blast
qed










lemma median_filterv1_out:
  assumes "0 < nxv" "int (length out) = nyv * nxv" "int (length out') = nyv * nxv"
  shows "median_filterv1 inp out nyv nxv hyv hxv = median_filterv1 inp out' nyv nxv hyv hxv"
  by (rule ref_on_unique[OF median_filterv1_ref[OF assms(2)] median_filterv1_ref[OF assms(3)] assms(1)])

text \<open>
  C7 (amended). For the 3 by 3 image \<open>[[1, 2, 3], [4, 5, 6], [7, 8, 9]]\<close> and
  \<open>hy = hx = 1\<close> the output is \<open>[[3, 3.5, 4], [4.5, 5, 5.5], [6, 6.5, 7]]\<close>: each pixel is the
  median of its neighbourhood inside the image; the corner pixels have 4 neighbours and
  the edge pixels 6, and both average the two middle values.
\<close>

theorem gradient_3x3_output:
  assumes "std_sort_spec srt" "length out = 9"
  shows "median_filterv4 srt num_threads [1, 2, 3, 4, 5, 6, 7, 8, 9] out 3 3 1 1 =
           Some [3, 7 / 2, 4, 9 / 2, 5, 11 / 2, 6, 13 / 2, 7]"
proof -
  have "median_filterv4 srt num_threads [1, 2, 3, 4, 5, 6, 7, 8, 9] out 3 3 1 1 =
      Some (median_filterv1 [1, 2, 3, 4, 5, 6, 7, 8, 9] out 3 3 1 1)"
    by (rule median_filterv4_ref[OF assms(1)]) (use assms(2) in simp_all)
  also have "median_filterv1 [1, 2, 3, 4, 5, 6, 7, 8, 9] out 3 3 1 1 =
      median_filterv1 [1, 2, 3, 4, 5, 6, 7, 8, 9] (replicate 9 0) 3 3 1 1"
    by (rule median_filterv1_out) (use assms(2) in simp_all)
  finally show ?thesis by (simp add: example_reference)
qed

theorem gradient_3x3_output_witness:
  "median_filterv4 (sort_key fst) 8 [1, 2, 3, 4, 5, 6, 7, 8, 9] [0, 0, 0, 0, 0, 0, 0, 0, 0] 3 3 1 1 =
     Some [3, 7 / 2, 4, 9 / 2, 5, 11 / 2, 6, 13 / 2, 7]"
  using gradient_3x3_output[of "sort_key fst" "[0, 0, 0, 0, 0, 0, 0, 0, 0]" 8]
  by (simp add: sort_key_fst_spec)

theorem gradient_3x3_counterexample:
  "median_filterv4 (sort_key fst) 1 [1, 2, 3, 4, 5, 6, 7, 8, 9] (replicate 9 0) 3 3 1 1 \<noteq>
     Some [3, 3, 4, 4, 5, 6, 6, 7, 7]"
  by code_simp

end
